theory Spec2Isabelle
  imports Main "HOL-Library.Word"
begin

section \<open>The N-ary tree of tree.c: data model\<close>

text \<open>
  A pointer to a node is an address; \<open>NULL\<close> is \<open>None\<close>. The heap maps the addresses of
  the live nodes to their contents. The child array of a node is owned by that node, so it
  is kept inside the node: a list with one cell per allocated slot, a cell being a
  (possibly null) pointer. \<open>unsigned int\<close> is a 32-bit word.
\<close>

type_synonym addr = nat
type_synonym uint = "32 word"

text \<open>
  \<open>struct _TreeNode\<close>. The C fields \<open>_alloced\<close>, \<open>i\<close> and \<open>h\<close> are
  \<open>alloced\<close>, \<open>idx\<close> and \<open>hgt\<close> here.
\<close>

record 'v TreeNode =
  parent :: "addr option"
  children :: "addr option list"
  outDegree :: uint
  data :: 'v
  alloced :: uint
  idx :: uint
  hgt :: uint

type_synonym 'v heap = "addr \<Rightarrow> 'v TreeNode option"

text \<open>\<open>struct _TreeIterator\<close>: the fields \<open>t\<close>, \<open>prev\<close>, \<open>current\<close>, \<open>next\<close>.\<close>

record TreeIterator =
  it_t :: "addr option"
  it_prev :: "addr option"
  it_current :: "addr option"
  it_next :: "addr option"

text \<open>
  Dereferencing a null or dangling pointer, and reading or writing a child array outside
  its allocated cells, is undefined behaviour in C; the model reports it as an error. A
  pointer to a freed block is dangling only until the allocator hands the block out again:
  from then on it points to the node that lives there.
\<close>

datatype error = MemFault

definition load :: "'v heap \<Rightarrow> addr option \<Rightarrow> error + 'v TreeNode" where
  "load s p = (case p of None \<Rightarrow> Inl MemFault
               | Some a \<Rightarrow> (case s a of None \<Rightarrow> Inl MemFault | Some nd \<Rightarrow> Inr nd))"

text \<open>\<open>n->children[k]\<close> as an rvalue.\<close>

definition child_at :: "'v TreeNode \<Rightarrow> uint \<Rightarrow> error + addr option" where
  "child_at nd k =
     (if unat k < unat (alloced nd) \<and> unat k < length (children nd)
      then Inr (children nd ! unat k) else Inl MemFault)"

text \<open>\<open>n->children[k] = c\<close>.\<close>

definition set_child_at :: "'v TreeNode \<Rightarrow> uint \<Rightarrow> addr option \<Rightarrow> error + 'v TreeNode" where
  "set_child_at nd k c =
     (if unat k < unat (alloced nd) \<and> unat k < length (children nd)
      then Inr (nd\<lparr>children := (children nd)[unat k := c]\<rparr>) else Inl MemFault)"

section \<open>Height maintenance and the child array\<close>

text \<open>
  The \<open>for\<close> loop of \<open>tree_update_height\<close>: the maximum of the stored heights of the
  children \<open>0 .. outDegree - 1\<close>, starting from 0.
\<close>

definition max_child_h :: "'v heap \<Rightarrow> 'v TreeNode \<Rightarrow> error + uint" where
  "max_child_h s nd =
     fold (\<lambda>k acc. case acc of Inl e \<Rightarrow> Inl e
                   | Inr hv \<Rightarrow> (case child_at nd (of_nat k) of Inl e \<Rightarrow> Inl e
                       | Inr c \<Rightarrow> (case load s c of Inl e \<Rightarrow> Inl e
                           | Inr cn \<Rightarrow> Inr (if hv > hgt cn then hv else hgt cn))))
          [0 ..< unat (outDegree nd)] (Inr 0)"

text \<open>
  \<open>tree_update_height\<close>: the \<open>while\<close> loop follows the parent pointers, which need not
  end; \<open>None\<close> is the run that never returns.
\<close>

partial_function (option) tree_update_height ::
  "addr option \<Rightarrow> 'v heap \<Rightarrow> (error + 'v heap) option" where
  "tree_update_height n s =
     (case n of None \<Rightarrow> Some (Inr s)
      | Some a \<Rightarrow> (case s a of None \<Rightarrow> Some (Inl MemFault)
          | Some nd \<Rightarrow> (case max_child_h s nd of Inl e \<Rightarrow> Some (Inl e)
              | Inr hv \<Rightarrow> tree_update_height (parent nd) (s(a \<mapsto> nd\<lparr>hgt := hv\<rparr>)))))"

text \<open>
  \<open>tree_children_grow_min_size\<close>. Whether \<open>realloc\<close> succeeds is the allocator's choice
  and is a parameter. New cells are uninitialised; they hold \<open>None\<close> here.
\<close>

definition tree_children_grow_min_size ::
  "bool \<Rightarrow> addr \<Rightarrow> uint \<Rightarrow> 'v heap \<Rightarrow> error + (bool \<times> 'v heap)" where
  "tree_children_grow_min_size realloc_ok n sz s =
     (case s n of None \<Rightarrow> Inl MemFault
      | Some nd \<Rightarrow>
          if alloced nd \<ge> sz then Inr (True, s)
          else if \<not> realloc_ok then Inr (False, s)
          else Inr (True, s(n \<mapsto> nd\<lparr>children := take (unat sz) (children nd)
                                       @ replicate (unat sz - length (children nd)) None,
                                     alloced := sz\<rparr>)))"

text \<open>The search loop of \<open>tree_node_remove_child\<close>: the first position holding \<open>c\<close>.\<close>

function find_child :: "'v TreeNode \<Rightarrow> addr \<Rightarrow> uint \<Rightarrow> error + uint" where
  "find_child pn c i =
     (if i < outDegree pn
      then (case child_at pn i of Inl e \<Rightarrow> Inl e
            | Inr x \<Rightarrow> if x \<noteq> Some c then find_child pn c (i + 1) else Inr i)
      else Inr i)"
  by pat_completeness auto
termination
proof (relation "measure (\<lambda>(pn, c, i). unat (outDegree pn) - unat i)")
  show "wf (measure (\<lambda>(pn :: 'v TreeNode, c :: addr, i :: uint). unat (outDegree pn) - unat i))"
    by simp
next
  fix pn :: "'v TreeNode" and c :: addr and i :: uint and x
  assume "i < outDegree pn"
  then have lt: "unat i < unat (outDegree pn)" by (simp add: word_less_nat_alt)
  have "unat (outDegree pn) < 4294967296"
    using unsigned_less [of "outDegree pn", where 'a = nat] by simp
  with lt have "unat (i + 1) = unat i + 1"
    by (simp add: unat_word_ariths)
  with lt show "((pn, c, i + 1), (pn, c, i))
      \<in> measure (\<lambda>(pn, c, i). unat (outDegree pn) - unat i)"
    by simp
qed

declare find_child.simps [simp del]

text \<open>
  The shifting loop of \<open>tree_node_remove_child\<close>:
  \<open>for (; i < p->outDegree - 1; i++) { p->children[i] = p->children[i+1]; p->children[i]->i = i; }\<close>.
  The subtraction is unsigned and wraps when \<open>outDegree\<close> is 0.
\<close>

function remove_shift :: "'v heap \<Rightarrow> addr \<Rightarrow> uint \<Rightarrow> error + 'v heap" where
  "remove_shift s p i =
     (case s p of None \<Rightarrow> Inl MemFault
      | Some pn \<Rightarrow>
          if i < outDegree pn - 1
          then (case child_at pn (i + 1) of Inl e \<Rightarrow> Inl e
                | Inr x \<Rightarrow> (case set_child_at pn i x of Inl e \<Rightarrow> Inl e
                    | Inr pn' \<Rightarrow> (case x of None \<Rightarrow> Inl MemFault
                        | Some ca \<Rightarrow> (case (s(p \<mapsto> pn')) ca of None \<Rightarrow> Inl MemFault
                            | Some cn \<Rightarrow>
                                remove_shift (s(p \<mapsto> pn', ca \<mapsto> cn\<lparr>idx := i\<rparr>)) p (i + 1)))))
          else Inr s)"
  by pat_completeness auto
termination
proof (relation "measure (\<lambda>(s, p, i).
         (case s p of None \<Rightarrow> 0 | Some pn \<Rightarrow> unat (outDegree pn - 1)) - unat i)")
  show "wf (measure (\<lambda>(s :: 'v heap, p :: addr, i :: uint).
         (case s p of None \<Rightarrow> 0 | Some pn \<Rightarrow> unat (outDegree pn - 1)) - unat i))"
    by simp
next
  fix s :: "'v heap" and p :: addr and i :: uint and pn x pn' ca cn
  assume sp: "s p = Some pn" and lt: "i < outDegree pn - 1"
    and w: "set_child_at pn i x = Inr pn'"
    and c: "(s(p \<mapsto> pn')) ca = Some cn"
  from w have od: "outDegree pn' = outDegree pn"
    by (auto simp: set_child_at_def split: if_splits)
  have od': "(case (s(p \<mapsto> pn', ca \<mapsto> cn\<lparr>idx := i\<rparr>)) p of None \<Rightarrow> 0
              | Some pn \<Rightarrow> unat (outDegree pn - 1)) = unat (outDegree pn - 1)"
    using c od by (cases "ca = p") auto
  from lt have l: "unat i < unat (outDegree pn - 1)" by (simp add: word_less_nat_alt)
  have "unat (outDegree pn - 1) < 4294967296"
    using unsigned_less [of "outDegree pn - 1", where 'a = nat] by simp
  with l have "unat (i + 1) = unat i + 1"
    by (simp add: unat_word_ariths)
  with l od' sp show "((s(p \<mapsto> pn', ca \<mapsto> cn\<lparr>idx := i\<rparr>), p, i + 1), (s, p, i))
      \<in> measure (\<lambda>(s, p, i).
         (case s p of None \<Rightarrow> 0 | Some pn \<Rightarrow> unat (outDegree pn - 1)) - unat i)"
    by simp
qed

declare remove_shift.simps [simp del]

text \<open>\<open>tree_node_remove_child\<close>: takes \<open>c\<close> out of the child array of its parent.\<close>

definition tree_node_remove_child :: "addr \<Rightarrow> 'v heap \<Rightarrow> error + 'v heap" where
  "tree_node_remove_child c s =
     (case s c of None \<Rightarrow> Inl MemFault
      | Some cn \<Rightarrow> (case parent cn of None \<Rightarrow> Inl MemFault
          | Some p \<Rightarrow> (case s p of None \<Rightarrow> Inl MemFault
              | Some pn \<Rightarrow> (case find_child pn c 0 of Inl e \<Rightarrow> Inl e
                  | Inr i \<Rightarrow> (case set_child_at pn i None of Inl e \<Rightarrow> Inl e
                      | Inr pn1 \<Rightarrow> (case remove_shift (s(p \<mapsto> pn1)) p i of Inl e \<Rightarrow> Inl e
                          | Inr s1 \<Rightarrow> (case s1 p of None \<Rightarrow> Inl MemFault
                              | Some pn2 \<Rightarrow>
                                  Inr (s1(p \<mapsto> pn2\<lparr>outDegree := outDegree pn2 - 1\<rparr>)))))))))"

section \<open>Allocation and release\<close>

text \<open>
  \<open>tree_alloc\<close>. The result of \<open>malloc\<close> is a parameter: \<open>None\<close> when it fails, else
  the address of the new block.
\<close>

definition tree_alloc :: "addr option \<Rightarrow> 'v \<Rightarrow> 'v heap \<Rightarrow> addr option \<times> 'v heap" where
  "tree_alloc malloc_res d s =
     (case malloc_res of None \<Rightarrow> (None, s)
      | Some a \<Rightarrow> (Some a, s(a \<mapsto> \<lparr>parent = None, children = [], outDegree = 0, data = d,
                                   alloced = 0, idx = 0, hgt = 0\<rparr>)))"

text \<open>
  \<open>tree_free\<close>: \<open>free(t->children); free(t);\<close>. The child array lives inside the node
  here, so both go at once. Freeing a block that is not live is an error.
\<close>

definition tree_free :: "addr option \<Rightarrow> 'v heap \<Rightarrow> error + 'v heap" where
  "tree_free t s =
     (case t of None \<Rightarrow> Inr s
      | Some a \<Rightarrow> (case s a of None \<Rightarrow> Inl MemFault | Some nd \<Rightarrow> Inr (s(a := None))))"

section \<open>Queries\<close>

definition tree_out_degree :: "'v heap \<Rightarrow> addr \<Rightarrow> error + uint" where
  "tree_out_degree s n = (case s n of None \<Rightarrow> Inl MemFault | Some nd \<Rightarrow> Inr (outDegree nd))"

definition tree_is_leaf :: "'v heap \<Rightarrow> addr \<Rightarrow> error + bool" where
  "tree_is_leaf s n =
     (case tree_out_degree s n of Inl e \<Rightarrow> Inl e | Inr d \<Rightarrow> Inr (d = 0))"

definition tree_child :: "'v heap \<Rightarrow> addr \<Rightarrow> uint \<Rightarrow> error + addr option" where
  "tree_child s n i =
     (case s n of None \<Rightarrow> Inl MemFault
      | Some nd \<Rightarrow> if outDegree nd > i then child_at nd i else Inr None)"

text \<open>\<open>tree_is_descendant_of\<close>: \<open>while (d != NULL && d != n) d = d->parent; return d == n;\<close>\<close>

partial_function (option) tree_is_descendant_of ::
  "'v heap \<Rightarrow> addr option \<Rightarrow> addr option \<Rightarrow> (error + bool) option" where
  "tree_is_descendant_of s d n =
     (case d of None \<Rightarrow> Some (Inr (d = n))
      | Some a \<Rightarrow>
          if d \<noteq> n
          then (case s a of None \<Rightarrow> Some (Inl MemFault)
                | Some nd \<Rightarrow> tree_is_descendant_of s (parent nd) n)
          else Some (Inr (d = n)))"

definition tree_is_ancestor_of ::
  "'v heap \<Rightarrow> addr option \<Rightarrow> addr option \<Rightarrow> (error + bool) option" where
  "tree_is_ancestor_of s a n = tree_is_descendant_of s n a"

text \<open>The loop of \<open>tree_depth\<close>: \<open>while (n != NULL && n != t) { n = n->parent; d++; }\<close>\<close>

partial_function (option) depth_loop ::
  "'v heap \<Rightarrow> addr option \<Rightarrow> addr option \<Rightarrow> uint \<Rightarrow> (error + uint) option" where
  "depth_loop s t n d =
     (case n of None \<Rightarrow> Some (Inr d)
      | Some a \<Rightarrow>
          if n \<noteq> t
          then (case s a of None \<Rightarrow> Some (Inl MemFault)
                | Some nd \<Rightarrow> depth_loop s t (parent nd) (d + 1))
          else Some (Inr d))"

definition tree_depth ::
  "'v heap \<Rightarrow> addr option \<Rightarrow> addr option \<Rightarrow> (error + uint) option" where
  "tree_depth s t n =
     (case tree_is_ancestor_of s t n of None \<Rightarrow> None
      | Some (Inl e) \<Rightarrow> Some (Inl e)
      | Some (Inr b) \<Rightarrow> if \<not> b then Some (Inr 0) else depth_loop s t n 0)"

definition tree_level ::
  "'v heap \<Rightarrow> addr option \<Rightarrow> addr option \<Rightarrow> (error + uint) option" where
  "tree_level s t n =
     (case tree_is_ancestor_of s t n of None \<Rightarrow> None
      | Some (Inl e) \<Rightarrow> Some (Inl e)
      | Some (Inr b) \<Rightarrow>
          if \<not> b then Some (Inr 0)
          else (case tree_depth s t n of None \<Rightarrow> None
                | Some (Inl e) \<Rightarrow> Some (Inl e)
                | Some (Inr d) \<Rightarrow> Some (Inr (d + 1))))"

definition tree_height :: "'v heap \<Rightarrow> addr option \<Rightarrow> error + uint" where
  "tree_height s t =
     (case t of None \<Rightarrow> Inr 0
      | Some a \<Rightarrow> (case s a of None \<Rightarrow> Inl MemFault | Some nd \<Rightarrow> Inr (hgt nd)))"

section \<open>Structural mutators\<close>

text \<open>
  \<open>tree_remove\<close>: detaches \<open>n\<close> from its parent and returns it. The result is \<open>None\<close>
  when \<open>tree_update_height\<close> does not return.
\<close>

definition tree_remove :: "addr \<Rightarrow> 'v heap \<Rightarrow> (error + addr \<times> 'v heap) option" where
  "tree_remove n s =
     (case s n of None \<Rightarrow> Some (Inl MemFault)
      | Some nd \<Rightarrow>
          if parent nd = None then Some (Inr (n, s))
          else (case tree_node_remove_child n s of Inl e \<Rightarrow> Some (Inl e)
                | Inr s1 \<Rightarrow> (case s1 n of None \<Rightarrow> Some (Inl MemFault)
                    | Some nd1 \<Rightarrow> (case tree_update_height (parent nd1) s1 of None \<Rightarrow> None
                        | Some (Inl e) \<Rightarrow> Some (Inl e)
                        | Some (Inr s2) \<Rightarrow> (case s2 n of None \<Rightarrow> Some (Inl MemFault)
                            | Some nd2 \<Rightarrow>
                                Some (Inr (n, s2(n \<mapsto> nd2\<lparr>parent := None, idx := 0\<rparr>))))))))"

text \<open>\<open>tree_delete\<close>: \<open>r = tree_remove(n); tree_free(r);\<close>\<close>

definition tree_delete :: "addr \<Rightarrow> 'v heap \<Rightarrow> (error + 'v heap) option" where
  "tree_delete n s =
     (case tree_remove n s of None \<Rightarrow> None
      | Some (Inl e) \<Rightarrow> Some (Inl e)
      | Some (Inr (r, s1)) \<Rightarrow> Some (tree_free (Some r) s1))"

text \<open>
  The statements that \<open>tree_add_subtree\<close> and \<open>tree_add_child\<close> share, one store after
  the other:
  \<open>n->children[n->outDegree] = c; c->parent = n; c->i = n->outDegree; n->outDegree++;\<close>
\<close>

definition link_last :: "addr \<Rightarrow> addr \<Rightarrow> 'v heap \<Rightarrow> error + 'v heap" where
  "link_last n c s =
     (case s n of None \<Rightarrow> Inl MemFault
      | Some nd \<Rightarrow> (case set_child_at nd (outDegree nd) (Some c) of Inl e \<Rightarrow> Inl e
          | Inr nd1 \<Rightarrow> (case (s(n \<mapsto> nd1)) c of None \<Rightarrow> Inl MemFault
              | Some cn \<Rightarrow> (case (s(n \<mapsto> nd1, c \<mapsto> cn\<lparr>parent := Some n\<rparr>)) n of
                    None \<Rightarrow> Inl MemFault
                  | Some nd2 \<Rightarrow>
                      (case (s(n \<mapsto> nd1, c \<mapsto> cn\<lparr>parent := Some n, idx := outDegree nd2\<rparr>)) n of
                         None \<Rightarrow> Inl MemFault
                       | Some nd3 \<Rightarrow>
                           Inr (s(n \<mapsto> nd1,
                                  c \<mapsto> cn\<lparr>parent := Some n, idx := outDegree nd2\<rparr>,
                                  n \<mapsto> nd3\<lparr>outDegree := outDegree nd3 + 1\<rparr>)))))))"

text \<open>
  \<open>tree_add_subtree\<close>. The result pointer is \<open>None\<close> on success and \<open>t\<close> when the array
  could not grow.
\<close>

definition tree_add_subtree ::
  "bool \<Rightarrow> addr \<Rightarrow> addr option \<Rightarrow> 'v heap \<Rightarrow> (error + addr option \<times> 'v heap) option" where
  "tree_add_subtree realloc_ok n t s =
     (case t of None \<Rightarrow> Some (Inr (None, s))
      | Some ta \<Rightarrow> (case s ta of None \<Rightarrow> Some (Inl MemFault)
          | Some tn \<Rightarrow>
              if parent tn \<noteq> None then Some (Inr (None, s))
              else (case tree_remove ta s of None \<Rightarrow> None
                    | Some (Inl e) \<Rightarrow> Some (Inl e)
                    | Some (Inr (r, s0)) \<Rightarrow> (case s0 n of None \<Rightarrow> Some (Inl MemFault)
                        | Some nd \<Rightarrow>
                            (case tree_children_grow_min_size realloc_ok n (outDegree nd + 1) s0 of
                               Inl e \<Rightarrow> Some (Inl e)
                             | Inr (ok, s1) \<Rightarrow>
                                 if \<not> ok then Some (Inr (t, s1))
                                 else (case link_last n ta s1 of Inl e \<Rightarrow> Some (Inl e)
                                       | Inr s2 \<Rightarrow> (case tree_update_height (Some n) s2 of
                                             None \<Rightarrow> None
                                           | Some (Inl e) \<Rightarrow> Some (Inl e)
                                           | Some (Inr s3) \<Rightarrow> Some (Inr (None, s3)))))))))"

text \<open>\<open>tree_add_child\<close>: returns the new child, or \<open>None\<close> on failure.\<close>

definition tree_add_child ::
  "bool \<Rightarrow> addr option \<Rightarrow> addr \<Rightarrow> 'v \<Rightarrow> 'v heap \<Rightarrow> (error + addr option \<times> 'v heap) option" where
  "tree_add_child realloc_ok malloc_res n d s =
     (case s n of None \<Rightarrow> Some (Inl MemFault)
      | Some nd \<Rightarrow> (case tree_children_grow_min_size realloc_ok n (outDegree nd + 1) s of
            Inl e \<Rightarrow> Some (Inl e)
          | Inr (ok, s1) \<Rightarrow>
              if \<not> ok then Some (Inr (None, s1))
              else (case tree_alloc malloc_res d s1 of
                      (None, s2) \<Rightarrow> Some (Inr (None, s2))
                    | (Some c, s2) \<Rightarrow> (case link_last n c s2 of Inl e \<Rightarrow> Some (Inl e)
                        | Inr s3 \<Rightarrow> (case tree_update_height (Some n) s3 of None \<Rightarrow> None
                            | Some (Inl e) \<Rightarrow> Some (Inl e)
                            | Some (Inr s4) \<Rightarrow> Some (Inr (Some c, s4)))))))"

text \<open>
  The loop of \<open>tree_insert_subtree\<close> that makes room for the new child:
  \<open>for (a = n->outDegree - 1; a >= i; a--) { n->children[a + 1] = n->children[a]; n->children[a + 1]->i = a + 1; }\<close>.
  \<open>a\<close> is unsigned: \<open>a--\<close> wraps at 0, and \<open>a >= 0\<close> always holds.
\<close>

function insert_shift :: "'v heap \<Rightarrow> addr \<Rightarrow> uint \<Rightarrow> uint \<Rightarrow> error + 'v heap" where
  "insert_shift s n i a =
     (if a \<ge> i
      then (case s n of None \<Rightarrow> Inl MemFault
            | Some nd \<Rightarrow> (case child_at nd a of Inl e \<Rightarrow> Inl e
                | Inr x \<Rightarrow> (case set_child_at nd (a + 1) x of Inl e \<Rightarrow> Inl e
                    | Inr nd' \<Rightarrow> (case x of None \<Rightarrow> Inl MemFault
                        | Some ca \<Rightarrow> (case (s(n \<mapsto> nd')) ca of None \<Rightarrow> Inl MemFault
                            | Some cn \<Rightarrow>
                                insert_shift (s(n \<mapsto> nd', ca \<mapsto> cn\<lparr>idx := a + 1\<rparr>)) n i (a - 1))))))
      else Inr s)"
  by pat_completeness auto
termination
proof (relation "measure (\<lambda>(s, n, i, a). unat (a + 1))")
  show "wf (measure (\<lambda>(s :: 'v heap, n :: addr, i :: uint, a :: uint). unat (a + 1)))"
    by simp
next
  fix s :: "'v heap" and n :: addr and i a :: uint and nd x nd' ca cn
  assume r: "child_at nd a = Inr x"
  have "unat (alloced nd) < 4294967296"
    using unsigned_less [of "alloced nd", where 'a = nat] by simp
  with r have "unat (a + 1) = unat a + 1"
    by (auto simp: child_at_def unat_word_ariths split: if_splits)
  then show "((s(n \<mapsto> nd', ca \<mapsto> cn\<lparr>idx := a + 1\<rparr>), n, i, a - 1), (s, n, i, a))
      \<in> measure (\<lambda>(s, n, i, a). unat (a + 1))"
    by simp
qed

declare insert_shift.simps [simp del]

text \<open>
  The stores after the loop of \<open>tree_insert_subtree\<close>:
  \<open>n->children[i] = t; n->outDegree++; t->parent = n; t->i = i;\<close>
\<close>

definition link_at :: "addr \<Rightarrow> addr \<Rightarrow> uint \<Rightarrow> 'v heap \<Rightarrow> error + 'v heap" where
  "link_at n t i s =
     (case s n of None \<Rightarrow> Inl MemFault
      | Some nd \<Rightarrow> (case set_child_at nd i (Some t) of Inl e \<Rightarrow> Inl e
          | Inr nd1 \<Rightarrow>
              (case (s(n \<mapsto> nd1\<lparr>outDegree := outDegree nd1 + 1\<rparr>)) t of None \<Rightarrow> Inl MemFault
               | Some tn \<Rightarrow>
                   Inr (s(n \<mapsto> nd1\<lparr>outDegree := outDegree nd1 + 1\<rparr>,
                          t \<mapsto> tn\<lparr>parent := Some n, idx := i\<rparr>)))))"

text \<open>
  \<open>tree_insert_subtree\<close>. The result pointer is \<open>None\<close> on success and \<open>t\<close> on rejection.
\<close>

definition tree_insert_subtree ::
  "bool \<Rightarrow> addr \<Rightarrow> addr option \<Rightarrow> uint \<Rightarrow> 'v heap
     \<Rightarrow> (error + addr option \<times> 'v heap) option" where
  "tree_insert_subtree realloc_ok n t i s =
     (case t of None \<Rightarrow> Some (Inr (t, s))
      | Some ta \<Rightarrow> (case s n of None \<Rightarrow> Some (Inl MemFault)
          | Some nd \<Rightarrow>
              if i > outDegree nd then Some (Inr (t, s))
              else (case s ta of None \<Rightarrow> Some (Inl MemFault)
                    | Some tn \<Rightarrow>
                        if parent tn \<noteq> None then Some (Inr (t, s))
                        else (case tree_children_grow_min_size realloc_ok n (outDegree nd + 1) s of
                                Inl e \<Rightarrow> Some (Inl e)
                              | Inr (ok, s1) \<Rightarrow>
                                  if \<not> ok then Some (Inr (t, s1))
                                  else (case insert_shift s1 n i (outDegree nd - 1) of
                                          Inl e \<Rightarrow> Some (Inl e)
                                        | Inr s2 \<Rightarrow> (case link_at n ta i s2 of
                                              Inl e \<Rightarrow> Some (Inl e)
                                            | Inr s3 \<Rightarrow>
                                                (case tree_update_height (Some n) s3 of
                                                   None \<Rightarrow> None
                                                 | Some (Inl e) \<Rightarrow> Some (Inl e)
                                                 | Some (Inr s4) \<Rightarrow> Some (Inr (None, s4)))))))))"

text \<open>
  \<open>tree_insert_child\<close>:
  \<open>c = tree_alloc(data); c = tree_insert_subtree(n, c, i); if (c == NULL) return c; else { tree_free(c); return NULL; }\<close>
\<close>

definition tree_insert_child ::
  "bool \<Rightarrow> addr option \<Rightarrow> addr \<Rightarrow> 'v \<Rightarrow> uint \<Rightarrow> 'v heap
     \<Rightarrow> (error + addr option \<times> 'v heap) option" where
  "tree_insert_child realloc_ok malloc_res n d i s =
     (case s n of None \<Rightarrow> Some (Inl MemFault)
      | Some nd \<Rightarrow>
          if i > outDegree nd then Some (Inr (None, s))
          else (case tree_alloc malloc_res d s of
                  (c, s1) \<Rightarrow> (case tree_insert_subtree realloc_ok n c i s1 of None \<Rightarrow> None
                    | Some (Inl e) \<Rightarrow> Some (Inl e)
                    | Some (Inr (c', s2)) \<Rightarrow>
                        if c' = None then Some (Inr (c', s2))
                        else (case tree_free c' s2 of Inl e \<Rightarrow> Some (Inl e)
                              | Inr s3 \<Rightarrow> Some (Inr (None, s3))))))"

text \<open>
  The middle of \<open>tree_set_subtree\<close>: appends when \<open>i == n->outDegree\<close>, else frees the
  child at \<open>i\<close> and overwrites the cell; then \<open>t->parent = n; t->i = i;\<close>
\<close>

definition set_at :: "addr \<Rightarrow> addr \<Rightarrow> uint \<Rightarrow> 'v heap \<Rightarrow> error + 'v heap" where
  "set_at n t i s =
     (case s n of None \<Rightarrow> Inl MemFault
      | Some nd \<Rightarrow>
          (case (if i = outDegree nd
                 then (case set_child_at nd i (Some t) of Inl e \<Rightarrow> Inl e
                       | Inr nd1 \<Rightarrow> Inr (s(n \<mapsto> nd1\<lparr>outDegree := outDegree nd1 + 1\<rparr>)))
                 else (case child_at nd i of Inl e \<Rightarrow> Inl e
                       | Inr old \<Rightarrow> (case tree_free old s of Inl e \<Rightarrow> Inl e
                           | Inr s1 \<Rightarrow> (case s1 n of None \<Rightarrow> Inl MemFault
                               | Some nd1 \<Rightarrow> (case set_child_at nd1 i (Some t) of Inl e \<Rightarrow> Inl e
                                   | Inr nd2 \<Rightarrow> Inr (s1(n \<mapsto> nd2)))))))
           of Inl e \<Rightarrow> Inl e
            | Inr s2 \<Rightarrow> (case s2 t of None \<Rightarrow> Inl MemFault
                | Some tn \<Rightarrow> Inr (s2(t \<mapsto> tn\<lparr>parent := Some n, idx := i\<rparr>)))))"

definition tree_set_subtree ::
  "bool \<Rightarrow> addr \<Rightarrow> addr option \<Rightarrow> uint \<Rightarrow> 'v heap
     \<Rightarrow> (error + addr option \<times> 'v heap) option" where
  "tree_set_subtree realloc_ok n t i s =
     (case t of None \<Rightarrow> Some (Inr (t, s))
      | Some ta \<Rightarrow> (case s n of None \<Rightarrow> Some (Inl MemFault)
          | Some nd \<Rightarrow>
              if i > outDegree nd then Some (Inr (t, s))
              else (case s ta of None \<Rightarrow> Some (Inl MemFault)
                    | Some tn \<Rightarrow>
                        if parent tn \<noteq> None then Some (Inr (t, s))
                        else (case tree_children_grow_min_size realloc_ok n (outDegree nd + 1) s of
                                Inl e \<Rightarrow> Some (Inl e)
                              | Inr (ok, s1) \<Rightarrow>
                                  if \<not> ok then Some (Inr (t, s1))
                                  else (case set_at n ta i s1 of Inl e \<Rightarrow> Some (Inl e)
                                        | Inr s2 \<Rightarrow> (case tree_update_height (Some n) s2 of
                                              None \<Rightarrow> None
                                            | Some (Inl e) \<Rightarrow> Some (Inl e)
                                            | Some (Inr s3) \<Rightarrow> Some (Inr (None, s3))))))))"

text \<open>\<open>tree_set_child\<close>: the same wrapper as \<open>tree_insert_child\<close>, over \<open>tree_set_subtree\<close>.\<close>

definition tree_set_child ::
  "bool \<Rightarrow> addr option \<Rightarrow> addr \<Rightarrow> 'v \<Rightarrow> uint \<Rightarrow> 'v heap
     \<Rightarrow> (error + addr option \<times> 'v heap) option" where
  "tree_set_child realloc_ok malloc_res n d i s =
     (case s n of None \<Rightarrow> Some (Inl MemFault)
      | Some nd \<Rightarrow>
          if i > outDegree nd then Some (Inr (None, s))
          else (case tree_alloc malloc_res d s of
                  (c, s1) \<Rightarrow> (case tree_set_subtree realloc_ok n c i s1 of None \<Rightarrow> None
                    | Some (Inl e) \<Rightarrow> Some (Inl e)
                    | Some (Inr (c', s2)) \<Rightarrow>
                        if c' = None then Some (Inr (c', s2))
                        else (case tree_free c' s2 of Inl e \<Rightarrow> Some (Inl e)
                              | Inr s3 \<Rightarrow> Some (Inr (None, s3))))))"

section \<open>Traversal iterators\<close>

definition tree_iter_has_next :: "TreeIterator \<Rightarrow> bool" where
  "tree_iter_has_next it = (it_next it \<noteq> None)"

definition tree_iter_has_prev :: "TreeIterator \<Rightarrow> bool" where
  "tree_iter_has_prev it = (it_prev it \<noteq> None)"

text \<open>\<open>tree_iter_alloc\<close>, when \<open>malloc\<close> succeeds: all four fields are \<open>NULL\<close>.\<close>

definition tree_iter_alloc :: TreeIterator where
  "tree_iter_alloc = \<lparr>it_t = None, it_prev = None, it_current = None, it_next = None\<rparr>"

subsection \<open>Leaves\<close>

text \<open>
  The loop of \<open>tree_iter_leaves_first\<close>:
  \<open>while (nc != NULL) { cc = nc; if (cc->outDegree > 0) nc = nc->children[0]; else nc = NULL; }\<close>
\<close>

partial_function (option) leaves_first_loop ::
  "'v heap \<Rightarrow> addr option \<Rightarrow> addr option \<Rightarrow> (error + addr option) option" where
  "leaves_first_loop s nc cc =
     (case nc of None \<Rightarrow> Some (Inr cc)
      | Some a \<Rightarrow> (case s a of None \<Rightarrow> Some (Inl MemFault)
          | Some nd \<Rightarrow>
              if outDegree nd > 0
              then (case child_at nd 0 of Inl e \<Rightarrow> Some (Inl e)
                    | Inr x \<Rightarrow> leaves_first_loop s x nc)
              else leaves_first_loop s None nc))"

definition tree_iter_leaves_first ::
  "TreeIterator \<Rightarrow> addr option \<Rightarrow> 'v heap \<Rightarrow> (error + TreeIterator) option" where
  "tree_iter_leaves_first it t s =
     (case leaves_first_loop s t t of None \<Rightarrow> None
      | Some (Inl e) \<Rightarrow> Some (Inl e)
      | Some (Inr cc) \<Rightarrow> Some (Inr (it\<lparr>it_t := t, it_next := cc\<rparr>)))"

text \<open>
  The first loop of \<open>tree_iter_leaves_next\<close>, which looks for the layer with a right
  sibling:
  \<open>while (p != NULL && p != i->t) { if (p->parent != NULL && p->i < p->parent->outDegree - 1) break; p = p->parent; }\<close>
\<close>

partial_function (option) leaves_up ::
  "'v heap \<Rightarrow> addr option \<Rightarrow> addr option \<Rightarrow> (error + addr option) option" where
  "leaves_up s t p =
     (case p of None \<Rightarrow> Some (Inr p)
      | Some a \<Rightarrow>
          if p = t then Some (Inr p)
          else (case s a of None \<Rightarrow> Some (Inl MemFault)
                | Some nd \<Rightarrow> (case parent nd of None \<Rightarrow> leaves_up s t None
                    | Some q \<Rightarrow> (case s q of None \<Rightarrow> Some (Inl MemFault)
                        | Some qn \<Rightarrow>
                            if idx nd < outDegree qn - 1 then Some (Inr p)
                            else leaves_up s t (Some q)))))"

text \<open>\<open>while (p->outDegree > 0) p = p->children[0];\<close>\<close>

partial_function (option) down_first ::
  "'v heap \<Rightarrow> addr option \<Rightarrow> (error + addr option) option" where
  "down_first s p =
     (case load s p of Inl e \<Rightarrow> Some (Inl e)
      | Inr nd \<Rightarrow>
          if outDegree nd > 0
          then (case child_at nd 0 of Inl e \<Rightarrow> Some (Inl e) | Inr x \<Rightarrow> down_first s x)
          else Some (Inr p))"

text \<open>\<open>while (p->outDegree > 0) p = p->children[p->outDegree - 1];\<close>\<close>

partial_function (option) down_last ::
  "'v heap \<Rightarrow> addr option \<Rightarrow> (error + addr option) option" where
  "down_last s p =
     (case load s p of Inl e \<Rightarrow> Some (Inl e)
      | Inr nd \<Rightarrow>
          if outDegree nd > 0
          then (case child_at nd (outDegree nd - 1) of Inl e \<Rightarrow> Some (Inl e)
                | Inr x \<Rightarrow> down_last s x)
          else Some (Inr p))"

text \<open>\<open>p->parent->children[p->i + 1]\<close>\<close>

definition right_sibling :: "'v heap \<Rightarrow> addr option \<Rightarrow> error + addr option" where
  "right_sibling s p =
     (case load s p of Inl e \<Rightarrow> Inl e
      | Inr nd \<Rightarrow> (case load s (parent nd) of Inl e \<Rightarrow> Inl e
          | Inr qn \<Rightarrow> child_at qn (idx nd + 1)))"

text \<open>\<open>p->parent->children[p->i - 1]\<close>\<close>

definition left_sibling :: "'v heap \<Rightarrow> addr option \<Rightarrow> error + addr option" where
  "left_sibling s p =
     (case load s p of Inl e \<Rightarrow> Inl e
      | Inr nd \<Rightarrow> (case load s (parent nd) of Inl e \<Rightarrow> Inl e
          | Inr qn \<Rightarrow> child_at qn (idx nd - 1)))"

text \<open>
  What \<open>tree_iter_leaves_next\<close> stores in \<open>i->next\<close>, from the old \<open>i->next\<close>.
\<close>

definition leaves_succ ::
  "'v heap \<Rightarrow> addr option \<Rightarrow> addr option \<Rightarrow> (error + addr option) option" where
  "leaves_succ s t nx =
     (case leaves_up s t nx of None \<Rightarrow> None
      | Some (Inl e) \<Rightarrow> Some (Inl e)
      | Some (Inr p) \<Rightarrow>
          if p = None \<or> p = t then Some (Inr None)
          else (case right_sibling s p of Inl e \<Rightarrow> Some (Inl e)
                | Inr x \<Rightarrow> down_first s x))"

text \<open>\<open>tree_iter_leaves_next\<close>: the returned node and the iterator after the call.\<close>

definition tree_iter_leaves_next ::
  "TreeIterator \<Rightarrow> 'v heap \<Rightarrow> (error + addr option \<times> TreeIterator) option" where
  "tree_iter_leaves_next it s =
     (case leaves_succ s (it_t it) (it_next it) of None \<Rightarrow> None
      | Some (Inl e) \<Rightarrow> Some (Inl e)
      | Some (Inr nx) \<Rightarrow>
          Some (Inr (it_next it,
                     it\<lparr>it_prev := it_current it, it_current := it_next it, it_next := nx\<rparr>)))"

text \<open>
  A caller that drains the iterator:
  \<open>while (tree_iter_has_next(i)) { n = tree_iter_leaves_next(i); ... }\<close>,
  with the nodes it receives, in order.
\<close>

partial_function (option) leaves_drain ::
  "TreeIterator \<Rightarrow> 'v heap \<Rightarrow> (error + addr option list) option" where
  "leaves_drain it s =
     (if tree_iter_has_next it
      then (case tree_iter_leaves_next it s of None \<Rightarrow> None
            | Some (Inl e) \<Rightarrow> Some (Inl e)
            | Some (Inr (n, it')) \<Rightarrow>
                Option.bind (leaves_drain it' s)
                  (\<lambda>r. Some (case r of Inl e \<Rightarrow> Inl e | Inr ns \<Rightarrow> Inr (n # ns))))
      else Some (Inr []))"

subsection \<open>Preorder walk\<close>

definition tree_preorder_walk :: "TreeIterator \<Rightarrow> addr option \<Rightarrow> TreeIterator" where
  "tree_preorder_walk it t = it\<lparr>it_t := t, it_next := t, it_current := None, it_prev := None\<rparr>"

text \<open>
  The loop of \<open>tree_preorder_walk_next\<close>, with the \<open>i->next = NULL\<close> after it; the
  result is the new \<open>i->next\<close>.
\<close>

partial_function (option) preorder_up ::
  "'v heap \<Rightarrow> addr option \<Rightarrow> addr option \<Rightarrow> (error + addr option) option" where
  "preorder_up s t p =
     (case p of None \<Rightarrow> Some (Inr None)
      | Some a \<Rightarrow> (case s a of None \<Rightarrow> Some (Inl MemFault)
          | Some nd \<Rightarrow> (case parent nd of None \<Rightarrow> Some (Inr None)
              | Some q \<Rightarrow>
                  if p = t then Some (Inr None)
                  else (case s q of None \<Rightarrow> Some (Inl MemFault)
                        | Some qn \<Rightarrow>
                            if idx nd < outDegree qn - 1
                            then Some (child_at qn (idx nd + 1))
                            else preorder_up s t (Some q)))))"

definition tree_preorder_walk_next ::
  "TreeIterator \<Rightarrow> 'v heap \<Rightarrow> (error + addr option \<times> TreeIterator) option" where
  "tree_preorder_walk_next it s =
     (case it_next it of
        None \<Rightarrow> Some (Inr (None, it\<lparr>it_prev := it_current it, it_current := None\<rparr>))
      | Some a \<Rightarrow> (case s a of None \<Rightarrow> Some (Inl MemFault)
          | Some nd \<Rightarrow>
              (case (if outDegree nd > 0 then Some (child_at nd 0)
                     else preorder_up s (it_t it) (it_next it)) of
                 None \<Rightarrow> None
               | Some (Inl e) \<Rightarrow> Some (Inl e)
               | Some (Inr nx) \<Rightarrow>
                   Some (Inr (it_next it,
                              it\<lparr>it_prev := it_current it, it_current := it_next it,
                                 it_next := nx\<rparr>)))))"

definition tree_preorder_walk_prev ::
  "TreeIterator \<Rightarrow> 'v heap \<Rightarrow> (error + addr option \<times> TreeIterator) option" where
  "tree_preorder_walk_prev it s =
     (case (if it_prev it = it_t it \<or> it_prev it = None then Some (Inr None)
            else (case load s (it_prev it) of Inl e \<Rightarrow> Some (Inl e)
                  | Inr nd \<Rightarrow>
                      if idx nd > 0
                      then (case left_sibling s (it_prev it) of Inl e \<Rightarrow> Some (Inl e)
                            | Inr x \<Rightarrow> down_last s x)
                      else Some (Inr (parent nd)))) of
        None \<Rightarrow> None
      | Some (Inl e) \<Rightarrow> Some (Inl e)
      | Some (Inr pv) \<Rightarrow>
          Some (Inr (it_prev it,
                     it\<lparr>it_next := it_current it, it_current := it_prev it, it_prev := pv\<rparr>)))"

subsection \<open>Postorder walk\<close>

text \<open>
  The loop of \<open>tree_postorder_walk\<close>:
  \<open>while (i->next != NULL && i->next->outDegree > 0) i->next = i->next->children[0];\<close>
\<close>

partial_function (option) postorder_first ::
  "'v heap \<Rightarrow> addr option \<Rightarrow> (error + addr option) option" where
  "postorder_first s p =
     (case p of None \<Rightarrow> Some (Inr None)
      | Some a \<Rightarrow> (case s a of None \<Rightarrow> Some (Inl MemFault)
          | Some nd \<Rightarrow>
              if outDegree nd > 0
              then (case child_at nd 0 of Inl e \<Rightarrow> Some (Inl e) | Inr x \<Rightarrow> postorder_first s x)
              else Some (Inr p)))"

definition tree_postorder_walk ::
  "TreeIterator \<Rightarrow> addr option \<Rightarrow> 'v heap \<Rightarrow> (error + TreeIterator) option" where
  "tree_postorder_walk it t s =
     (case postorder_first s t of None \<Rightarrow> None
      | Some (Inl e) \<Rightarrow> Some (Inl e)
      | Some (Inr nx) \<Rightarrow>
          Some (Inr (it\<lparr>it_t := t, it_next := nx, it_current := None, it_prev := None\<rparr>)))"

definition tree_postorder_walk_next ::
  "TreeIterator \<Rightarrow> 'v heap \<Rightarrow> (error + addr option \<times> TreeIterator) option" where
  "tree_postorder_walk_next it s =
     (case (case it_next it of None \<Rightarrow> Some (Inr None)
            | Some a \<Rightarrow> (case s a of None \<Rightarrow> Some (Inl MemFault)
                | Some nd \<Rightarrow>
                    if parent nd = None \<or> it_next it = it_t it then Some (Inr None)
                    else (case load s (parent nd) of Inl e \<Rightarrow> Some (Inl e)
                          | Inr qn \<Rightarrow>
                              if idx nd < outDegree qn - 1
                              then (case child_at qn (idx nd + 1) of Inl e \<Rightarrow> Some (Inl e)
                                    | Inr x \<Rightarrow> down_first s x)
                              else Some (Inr (parent nd))))) of
        None \<Rightarrow> None
      | Some (Inl e) \<Rightarrow> Some (Inl e)
      | Some (Inr nx) \<Rightarrow>
          Some (Inr (it_next it,
                     it\<lparr>it_prev := it_current it, it_current := it_next it, it_next := nx\<rparr>)))"

text \<open>
  The loop of \<open>tree_postorder_walk_prev\<close> and the two statements after it. The result is
  the new \<open>i->prev\<close> and the value returned: inside the loop the function returns
  \<open>i->prev\<close>, after it \<open>i->current\<close> (\<open>cur\<close>).
\<close>

partial_function (option) postorder_prev_up ::
  "'v heap \<Rightarrow> addr option \<Rightarrow> addr option \<Rightarrow> addr option
     \<Rightarrow> (error + addr option \<times> addr option) option" where
  "postorder_prev_up s t cur p =
     (case load s p of Inl e \<Rightarrow> Some (Inl e)
      | Inr nd \<Rightarrow>
          if parent nd \<noteq> None \<and> p \<noteq> None \<and> p \<noteq> t
          then (if idx nd > 0
                then (case left_sibling s p of Inl e \<Rightarrow> Some (Inl e)
                      | Inr x \<Rightarrow> Some (Inr (x, x)))
                else postorder_prev_up s t cur (parent nd))
          else Some (Inr (None, cur)))"

definition tree_postorder_walk_prev ::
  "TreeIterator \<Rightarrow> 'v heap \<Rightarrow> (error + addr option \<times> TreeIterator) option" where
  "tree_postorder_walk_prev it s =
     (case it_prev it of
        None \<Rightarrow> Some (Inr (None, it\<lparr>it_next := it_current it, it_current := None\<rparr>))
      | Some a \<Rightarrow> (case s a of None \<Rightarrow> Some (Inl MemFault)
          | Some nd \<Rightarrow>
              (case (if outDegree nd > 0
                     then (case child_at nd (outDegree nd - 1) of Inl e \<Rightarrow> Some (Inl e)
                           | Inr x \<Rightarrow> Some (Inr (x, x)))
                     else postorder_prev_up s (it_t it) (it_prev it) (it_prev it)) of
                 None \<Rightarrow> None
               | Some (Inl e) \<Rightarrow> Some (Inl e)
               | Some (Inr (pv, ret)) \<Rightarrow>
                   Some (Inr (ret,
                              it\<lparr>it_next := it_current it, it_current := it_prev it,
                                 it_prev := pv\<rparr>)))))"

section \<open>Well-formed heaps\<close>

text \<open>
  The link structure the operations maintain. For every live node: the child array has
  \<open>alloced\<close> cells and at least \<open>outDegree\<close> of them; each of the first \<open>outDegree\<close> cells
  points to a live node whose \<open>parent\<close> is this node and whose \<open>idx\<close> is the position of
  the cell; no node is its own parent; and a node without a parent has \<open>idx = 0\<close>.

  Beyond that, nothing is said about the \<open>parent\<close> field of a node that is in no
  child array: it may name a freed block, or a live node of which the node is no child.
  Such nodes exist: \<open>tree_free\<close> releases one node only, so after \<open>tree_set_subtree\<close>
  or \<open>tree_delete\<close> has freed a node, its children stay live with a dangling \<open>parent\<close>,
  and the allocator may hand out the freed block again, for a node that is not their
  parent.
\<close>

definition wf_heap :: "'v heap \<Rightarrow> bool" where
  "wf_heap s =
     (\<forall>a nd. s a = Some nd \<longrightarrow>
        length (children nd) = unat (alloced nd) \<and> unat (outDegree nd) \<le> unat (alloced nd)
        \<and> (\<forall>k < unat (outDegree nd).
              \<exists>c cn. children nd ! k = Some c \<and> s c = Some cn
                     \<and> parent cn = Some a \<and> unat (idx cn) = k)
        \<and> parent nd \<noteq> Some a \<and> (parent nd = None \<longrightarrow> idx nd = 0))"

text \<open>The index invariant of the specification: \<open>p.children[k].index == k\<close>.\<close>

definition index_inv :: "'v heap \<Rightarrow> bool" where
  "index_inv s =
     (\<forall>p pn. s p = Some pn \<longrightarrow>
        (\<forall>k < unat (outDegree pn).
           \<exists>c cn. child_at pn (of_nat k) = Inr (Some c) \<and> s c = Some cn \<and> unat (idx cn) = k))"

text \<open>
  What \<open>malloc\<close> may return: \<open>NULL\<close>, or the address of a block that is not allocated.
  The block may have been allocated and freed before, and pointers to it may be left in
  the heap.
\<close>

definition malloc_ok :: "'v heap \<Rightarrow> addr option \<Rightarrow> bool" where
  "malloc_ok s m = (case m of None \<Rightarrow> True | Some a \<Rightarrow> s a = None)"

text \<open>
  One call of a public mutating operation that returns. The allocator is free in what it
  returns, within \<open>malloc_ok\<close>, and in whether \<open>realloc\<close> succeeds.
\<close>

inductive mutation :: "'v heap \<Rightarrow> 'v heap \<Rightarrow> bool" where
  m_alloc: "s a = None \<Longrightarrow> mutation s (snd (tree_alloc (Some a) d s))"
| m_remove: "tree_remove n s = Some (Inr (r, s')) \<Longrightarrow> mutation s s'"
| m_delete: "tree_delete n s = Some (Inr s') \<Longrightarrow> mutation s s'"
| m_add_subtree: "tree_add_subtree rk n t s = Some (Inr (r, s')) \<Longrightarrow> mutation s s'"
| m_add_child: "malloc_ok s m \<Longrightarrow> tree_add_child rk m n d s = Some (Inr (r, s'))
     \<Longrightarrow> mutation s s'"
| m_insert_subtree: "tree_insert_subtree rk n t i s = Some (Inr (r, s')) \<Longrightarrow> mutation s s'"
| m_insert_child: "malloc_ok s m \<Longrightarrow> tree_insert_child rk m n d i s = Some (Inr (r, s'))
     \<Longrightarrow> mutation s s'"
| m_set_subtree: "tree_set_subtree rk n t i s = Some (Inr (r, s')) \<Longrightarrow> mutation s s'"
| m_set_child: "malloc_ok s m \<Longrightarrow> tree_set_child rk m n d i s = Some (Inr (r, s'))
     \<Longrightarrow> mutation s s'"

text \<open>
  What removing the child at position \<open>k\<close> of node \<open>p\<close> does to the array of \<open>p\<close>, from heap
  \<open>s\<close> to heap \<open>s'\<close>: one child less, the cells before \<open>k\<close> as they were, and each child
  behind \<open>k\<close> one cell lower with its stored index one less.
\<close>

definition shifted_down :: "'v heap \<Rightarrow> 'v heap \<Rightarrow> addr \<Rightarrow> nat \<Rightarrow> bool" where
  "shifted_down s s' p k =
     (\<exists>pn pn'. s p = Some pn \<and> s' p = Some pn' \<and> k < unat (outDegree pn)
        \<and> unat (outDegree pn') = unat (outDegree pn) - 1
        \<and> (\<forall>j<k. child_at pn' (of_nat j) = child_at pn (of_nat j))
        \<and> (\<forall>j. k \<le> j \<and> j < unat (outDegree pn) - 1 \<longrightarrow>
              (\<exists>x xn xn'. child_at pn (of_nat (Suc j)) = Inr (Some x)
                  \<and> child_at pn' (of_nat j) = Inr (Some x)
                  \<and> s x = Some xn \<and> unat (idx xn) = Suc j
                  \<and> s' x = Some xn' \<and> unat (idx xn') = j)))"

section \<open>Auxiliary notions for the proofs\<close>

text \<open>
  Two heaps that differ in stored heights only, which is all \<open>tree_update_height\<close>
  changes.
\<close>

definition hgt_only :: "'v heap \<Rightarrow> 'v heap \<Rightarrow> bool" where
  "hgt_only s s' =
     (\<forall>a. case s a of None \<Rightarrow> s' a = None | Some nd \<Rightarrow> (\<exists>h. s' a = Some (nd\<lparr>hgt := h\<rparr>)))"

text \<open>The parent chain from a pointer ends in \<open>NULL\<close> and passes through live nodes only.\<close>

inductive chain :: "'v heap \<Rightarrow> addr option \<Rightarrow> bool" for s :: "'v heap" where
  chain_null: "chain s None"
| chain_step: "s a = Some nd \<Longrightarrow> chain s (parent nd) \<Longrightarrow> chain s (Some a)"

text \<open>
  Well-formedness while an operation is at work on the child array of node \<open>p\<close>: the array
  of \<open>p\<close> is read up to \<open>m\<close> cells instead of \<open>outDegree\<close>, cell \<open>j\<close> of \<open>p\<close> is a hole
  about which nothing is said, and the nodes in \<open>X\<close> are detached: no cell points to them and
  nothing is said about their parent and index.
\<close>

definition deg :: "addr \<Rightarrow> nat \<Rightarrow> addr \<Rightarrow> 'v TreeNode \<Rightarrow> nat" where
  "deg p m a nd = (if a = p then m else unat (outDegree nd))"

definition wfg :: "'v heap \<Rightarrow> addr \<Rightarrow> nat \<Rightarrow> nat \<Rightarrow> addr set \<Rightarrow> bool" where
  "wfg s p m j X =
     ((\<forall>a nd. s a = Some nd \<longrightarrow>
          length (children nd) = unat (alloced nd) \<and> unat (outDegree nd) \<le> unat (alloced nd)
          \<and> deg p m a nd \<le> unat (alloced nd))
      \<and> (\<forall>a nd k. s a = Some nd \<and> k < deg p m a nd \<and> (a = p \<longrightarrow> k \<noteq> j) \<longrightarrow>
            (\<exists>c cn. children nd ! k = Some c \<and> c \<notin> X \<and> s c = Some cn
                    \<and> parent cn = Some a \<and> unat (idx cn) = k))
      \<and> (\<forall>a nd. s a = Some nd \<and> a \<notin> X \<longrightarrow>
            parent nd \<noteq> Some a \<and> (parent nd = None \<longrightarrow> idx nd = 0)))"

definition dg :: "'v heap \<Rightarrow> addr \<Rightarrow> nat" where
  "dg s p = (case s p of None \<Rightarrow> 0 | Some pn \<Rightarrow> unat (outDegree pn))"

text \<open>
  The parent chain from a pointer as a list: \<open>path s x as\<close> holds when following the
  \<open>parent\<close> fields from \<open>x\<close> visits exactly the live nodes \<open>as\<close>, in this order, and then
  reaches \<open>NULL\<close>.
\<close>

primrec path :: "'v heap \<Rightarrow> addr option \<Rightarrow> addr list \<Rightarrow> bool" where
  "path s x [] = (x = None)"
| "path s x (a # as) =
     (x = Some a \<and> (case s a of None \<Rightarrow> False | Some nd \<Rightarrow> path s (parent nd) as))"

text \<open>
  What the loop of \<open>tree_update_height\<close> reads: the first \<open>outDegree\<close> cells of every
  child array exist and point to live nodes.
\<close>

definition kids_live :: "'v heap \<Rightarrow> bool" where
  "kids_live s =
     (\<forall>a nd. s a = Some nd \<longrightarrow>
        length (children nd) = unat (alloced nd) \<and> unat (outDegree nd) \<le> unat (alloced nd)
        \<and> (\<forall>k < unat (outDegree nd). \<exists>c cn. children nd ! k = Some c \<and> s c = Some cn))"

section \<open>Trees in the heap\<close>

text \<open>
  The shape of a tree, as a value: a node address with the shapes of its subtrees, from
  the first child to the last. \<open>nodes\<close> lists the addresses in preorder, and \<open>fringe\<close>
  the addresses of the nodes without children, from left to right.
\<close>

datatype atree = ANode addr "atree list"

primrec root_of :: "atree \<Rightarrow> addr" where
  "root_of (ANode a ts) = a"

primrec nodes :: "atree \<Rightarrow> addr list" where
  "nodes (ANode a ts) = a # concat (map nodes ts)"

primrec fringe :: "atree \<Rightarrow> addr list" where
  "fringe (ANode a ts) = (if ts = [] then [a] else concat (map fringe ts))"

text \<open>
  The heap holds a tree of shape \<open>T\<close> at the address \<open>root_of T\<close>: every node is live,
  its \<open>outDegree\<close> is the number of its subtrees, the first \<open>outDegree\<close> cells of its child
  array exist and point to the roots of the subtrees, and the child in cell \<open>k\<close> has this
  node as \<open>parent\<close> and \<open>k\<close> as \<open>idx\<close>. Nothing is said about the parent of the root: the
  tree may be a subtree of a larger one.
\<close>

fun repr :: "'v heap \<Rightarrow> atree \<Rightarrow> bool" where
  "repr s (ANode a ts) =
     (case s a of None \<Rightarrow> False
      | Some nd \<Rightarrow>
          unat (outDegree nd) = length ts \<and> length ts \<le> unat (alloced nd)
          \<and> length (children nd) = unat (alloced nd)
          \<and> (\<forall>k < length ts. children nd ! k = Some (root_of (ts ! k))
                \<and> (case s (root_of (ts ! k)) of None \<Rightarrow> False
                    | Some cn \<Rightarrow> parent cn = Some a \<and> unat (idx cn) = k))
          \<and> (\<forall>u \<in> set ts. repr s u))"

text \<open>
  A list of nodes linked by a successor function \<open>nx\<close>: each node but the last is mapped
  to the next one, and the last node to \<open>e\<close>.
\<close>

fun linked :: "(addr \<Rightarrow> (error + addr option) option) \<Rightarrow> addr list
    \<Rightarrow> (error + addr option) option \<Rightarrow> bool" where
  "linked nx [] e = True"
| "linked nx [x] e = (nx x = e)"
| "linked nx (x # y # ys) e = (nx x = Some (Inr (Some y)) \<and> linked nx (y # ys) e)"

lemma unat_bound: "unat (a :: uint) < 4294967296"
  using unsigned_less [of a, where ?'a = nat] by simp

lemma unat_inc: "(a :: uint) < b \<Longrightarrow> unat (a + 1) = Suc (unat a)"
  using unat_bound [of b] by (simp add: word_less_nat_alt unat_word_ariths)


lemma unat_minus1_uint: "unat (- 1 :: uint) = 4294967295"
  by (simp add: unsigned_minus_1_eq_mask mask_eq_exp_minus_1)

lemma wfg_len:
  "wfg s p m j X \<Longrightarrow> s a = Some nd \<Longrightarrow>
     length (children nd) = unat (alloced nd) \<and> unat (outDegree nd) \<le> unat (alloced nd)
     \<and> deg p m a nd \<le> unat (alloced nd)"
  unfolding wfg_def by blast

lemma wfg_down:
  "wfg s p m j X \<Longrightarrow> s a = Some nd \<Longrightarrow> k < deg p m a nd \<Longrightarrow> (a = p \<Longrightarrow> k \<noteq> j) \<Longrightarrow>
     \<exists>c cn. children nd ! k = Some c \<and> c \<notin> X \<and> s c = Some cn
            \<and> parent cn = Some a \<and> unat (idx cn) = k"
  unfolding wfg_def by blast

lemma wfg_root:
  "wfg s p m j X \<Longrightarrow> s a = Some nd \<Longrightarrow> a \<notin> X \<Longrightarrow>
     parent nd \<noteq> Some a \<and> (parent nd = None \<longrightarrow> idx nd = 0)"
  unfolding wfg_def by blast

lemma wfgI:
  assumes "\<And>a nd. s a = Some nd \<Longrightarrow>
          length (children nd) = unat (alloced nd) \<and> unat (outDegree nd) \<le> unat (alloced nd)
          \<and> deg p m a nd \<le> unat (alloced nd)"
    and "\<And>a nd k. s a = Some nd \<Longrightarrow> k < deg p m a nd \<Longrightarrow> (a = p \<Longrightarrow> k \<noteq> j) \<Longrightarrow>
            (\<exists>c cn. children nd ! k = Some c \<and> c \<notin> X \<and> s c = Some cn
                    \<and> parent cn = Some a \<and> unat (idx cn) = k)"
    and "\<And>a nd. s a = Some nd \<Longrightarrow> a \<notin> X \<Longrightarrow>
            parent nd \<noteq> Some a \<and> (parent nd = None \<longrightarrow> idx nd = 0)"
  shows "wfg s p m j X"
  unfolding wfg_def using assms by blast

lemma place_move:
  assumes w: "wfg s p m j X" and sp: "s p = Some pn" and jm: "j < m" and j'm: "j' < m"
    and ne: "j' \<noteq> j" and cj: "children pn ! j' = Some c" and sc: "s c = Some cn" and i: "unat i = j"
  shows "wfg (s(p \<mapsto> pn\<lparr>children := (children pn)[j := Some c]\<rparr>, c \<mapsto> cn\<lparr>idx := i\<rparr>)) p m j' X"
proof -
  let ?pn = "pn\<lparr>children := (children pn)[j := Some c]\<rparr>"
  let ?cn = "cn\<lparr>idx := i\<rparr>"
  let ?s = "s(p \<mapsto> ?pn, c \<mapsto> ?cn)"
  from wfg_down [OF w sp, of j'] j'm ne cj sc
  have cX: "c \<notin> X" and cp: "parent cn = Some p" and ci: "unat (idx cn) = j'"
    by (auto simp: deg_def)
  from wfg_root [OF w sc cX] cp have cnp: "c \<noteq> p" by auto
  from wfg_len [OF w sp] have lp: "length (children pn) = unat (alloced pn)" "m \<le> unat (alloced pn)"
    by (auto simp: deg_def)
  have link: "\<And>x xn. s x = Some xn \<Longrightarrow> x \<noteq> c \<Longrightarrow>
      \<exists>xn'. ?s x = Some xn' \<and> parent xn' = parent xn \<and> idx xn' = idx xn
         \<and> outDegree xn' = outDegree xn \<and> alloced xn' = alloced xn
         \<and> (x \<noteq> p \<longrightarrow> xn' = xn)"
    using sp by auto
  show ?thesis
  proof (rule wfgI)
    fix a nd assume a: "?s a = Some nd"
    show "length (children nd) = unat (alloced nd) \<and> unat (outDegree nd) \<le> unat (alloced nd)
          \<and> deg p m a nd \<le> unat (alloced nd)"
      using a wfg_len [OF w sp] wfg_len [OF w sc] wfg_len [OF w, of a nd] cnp
      by (auto simp: deg_def split: if_splits)
  next
    fix a nd k assume a: "?s a = Some nd" and k: "k < deg p m a nd" and h: "a = p \<Longrightarrow> k \<noteq> j'"
    consider (c) "a = c" | (p) "a = p" "a \<noteq> c" | (o) "a \<noteq> p" "a \<noteq> c" by blast
    then show "\<exists>c' cn'. children nd ! k = Some c' \<and> c' \<notin> X \<and> ?s c' = Some cn'
                    \<and> parent cn' = Some a \<and> unat (idx cn') = k"
    proof cases
      case c
      with a cnp k have "k < deg p m c cn" "nd = ?cn" by (auto simp: deg_def)
      with wfg_down [OF w sc, of k] cnp obtain c' cn' where
        x: "children cn ! k = Some c'" "c' \<notin> X" "s c' = Some cn'" "parent cn' = Some c" "unat (idx cn') = k"
        by auto
      with cp sc cnp have "c' \<noteq> c" by auto
      from link [OF x(3) this] x c \<open>nd = ?cn\<close> show ?thesis by auto
    next
      case p
      with a have nd: "nd = ?pn" by auto
      show ?thesis
      proof (cases "k = j")
        case True
        with nd p cnp cp i lp jm cX show ?thesis by auto
      next
        case False
        from k p have "k < deg p m p pn" by (simp add: deg_def)
        with wfg_down [OF w sp, of k] h p False obtain c' cn' where
          x: "children pn ! k = Some c'" "c' \<notin> X" "s c' = Some cn'" "parent cn' = Some p" "unat (idx cn') = k"
          by auto
        with ci sc h p have "c' \<noteq> c" by auto
        from link [OF x(3) this] x nd p False show ?thesis by auto
      qed
    next
      case o
      with a have nd: "s a = Some nd" by auto
      from k o have "k < deg p m a nd" by (simp add: deg_def)
      with wfg_down [OF w nd, of k] o obtain c' cn' where
        x: "children nd ! k = Some c'" "c' \<notin> X" "s c' = Some cn'" "parent cn' = Some a" "unat (idx cn') = k"
        by auto
      with cp sc o have "c' \<noteq> c" by auto
      from link [OF x(3) this] x show ?thesis by auto
    qed
  next
    fix a nd assume a: "?s a = Some nd" and aX: "a \<notin> X"
    show "parent nd \<noteq> Some a \<and> (parent nd = None \<longrightarrow> idx nd = 0)"
      using a aX wfg_root [OF w sp] wfg_root [OF w sc] wfg_root [OF w, of a nd] cnp cp
      by (auto split: if_splits)
  qed
qed

lemma hgt_onlyD:
  "hgt_only s s' \<Longrightarrow> s' a = Some nd' \<Longrightarrow> \<exists>nd h. s a = Some nd \<and> nd' = nd\<lparr>hgt := h\<rparr>"
  unfolding hgt_only_def by (erule allE [of _ a]) (auto split: option.splits)

lemma wfg_hgt_only:
  assumes w: "wfg s p m j X" and h: "hgt_only s s'"
  shows "wfg s' p m j X"
proof (rule wfgI)
  fix a nd assume "s' a = Some nd"
  with hgt_onlyD [OF h] obtain nd0 hv where n0: "s a = Some nd0" "nd = nd0\<lparr>hgt := hv\<rparr>" by blast
  with wfg_len [OF w n0(1)]
  show "length (children nd) = unat (alloced nd) \<and> unat (outDegree nd) \<le> unat (alloced nd)
          \<and> deg p m a nd \<le> unat (alloced nd)"
    by (auto simp: deg_def split: if_splits)
next
  fix a nd k assume a: "s' a = Some nd" and k: "k < deg p m a nd" and hj: "a = p \<Longrightarrow> k \<noteq> j"
  from hgt_onlyD [OF h a] obtain nd0 hv where n0: "s a = Some nd0" "nd = nd0\<lparr>hgt := hv\<rparr>" by blast
  with k have "k < deg p m a nd0" by (auto simp: deg_def split: if_splits)
  from wfg_down [OF w n0(1) this hj] obtain c cn where
    x: "children nd0 ! k = Some c" "c \<notin> X" "s c = Some cn" "parent cn = Some a" "unat (idx cn) = k"
    by blast
  from h have "case s c of None \<Rightarrow> s' c = None | Some nd \<Rightarrow> (\<exists>h. s' c = Some (nd\<lparr>hgt := h\<rparr>))"
    unfolding hgt_only_def by (rule allE)
  with x(3) obtain hc where "s' c = Some (cn\<lparr>hgt := hc\<rparr>)" by auto
  with x n0 show "\<exists>c cn. children nd ! k = Some c \<and> c \<notin> X \<and> s' c = Some cn
                    \<and> parent cn = Some a \<and> unat (idx cn) = k"
    by auto
next
  fix a nd assume a: "s' a = Some nd" and aX: "a \<notin> X"
  from hgt_onlyD [OF h a] obtain nd0 hv where n0: "s a = Some nd0" "nd = nd0\<lparr>hgt := hv\<rparr>" by blast
  with wfg_root [OF w n0(1) aX]
  show "parent nd \<noteq> Some a \<and> (parent nd = None \<longrightarrow> idx nd = 0)" by simp
qed

lemma wfg_hole_out:
  assumes w: "wfg s p m j X" and mj: "m \<le> j" and mj': "m \<le> j'"
  shows "wfg s p m j' X"
proof (rule wfgI)
  { fix a nd assume a: "s a = Some nd"
    from wfg_len [OF w a]
    show "length (children nd) = unat (alloced nd) \<and> unat (outDegree nd) \<le> unat (alloced nd)
          \<and> deg p m a nd \<le> unat (alloced nd)" . }
  { fix a nd k assume a: "s a = Some nd" and k: "k < deg p m a nd" and hj: "a = p \<Longrightarrow> k \<noteq> j'"
    from k mj have "a = p \<Longrightarrow> k \<noteq> j" by (auto simp: deg_def split: if_splits)
    from wfg_down [OF w a k this]
    show "\<exists>c cn. children nd ! k = Some c \<and> c \<notin> X \<and> s c = Some cn
                    \<and> parent cn = Some a \<and> unat (idx cn) = k" . }
  { fix a nd assume "s a = Some nd" "a \<notin> X"
    from wfg_root [OF w this]
    show "parent nd \<noteq> Some a \<and> (parent nd = None \<longrightarrow> idx nd = 0)" . }
qed

lemma wfg_shrink: "wfg s p (Suc m) m X \<Longrightarrow> wfg s p m m X"
proof (rule wfgI)
  assume w: "wfg s p (Suc m) m X"
  { fix a nd assume a: "s a = Some nd"
    from wfg_len [OF w a]
    show "length (children nd) = unat (alloced nd) \<and> unat (outDegree nd) \<le> unat (alloced nd)
          \<and> deg p m a nd \<le> unat (alloced nd)"
      by (auto simp: deg_def split: if_splits) }
  { fix a nd k assume a: "s a = Some nd" and k: "k < deg p m a nd" and hj: "a = p \<Longrightarrow> k \<noteq> m"
    from k have "k < deg p (Suc m) a nd" "a = p \<Longrightarrow> k \<noteq> m" by (auto simp: deg_def split: if_splits)
    from wfg_down [OF w a this]
    show "\<exists>c cn. children nd ! k = Some c \<and> c \<notin> X \<and> s c = Some cn
                    \<and> parent cn = Some a \<and> unat (idx cn) = k" . }
  { fix a nd assume "s a = Some nd" "a \<notin> X"
    from wfg_root [OF w this]
    show "parent nd \<noteq> Some a \<and> (parent nd = None \<longrightarrow> idx nd = 0)" . }
qed

lemma wfg_extend:
  assumes w: "wfg s p m j X" and mj: "m \<le> j" and sp: "s p = Some pn"
    and al: "Suc m \<le> unat (alloced pn)"
  shows "wfg s p (Suc m) m X"
proof (rule wfgI)
  { fix a nd assume a: "s a = Some nd"
    from wfg_len [OF w a] sp al a
    show "length (children nd) = unat (alloced nd) \<and> unat (outDegree nd) \<le> unat (alloced nd)
          \<and> deg p (Suc m) a nd \<le> unat (alloced nd)"
      by (auto simp: deg_def split: if_splits) }
  { fix a nd k assume a: "s a = Some nd" and k: "k < deg p (Suc m) a nd" and hj: "a = p \<Longrightarrow> k \<noteq> m"
    from k hj mj have "k < deg p m a nd" "a = p \<Longrightarrow> k \<noteq> j" by (auto simp: deg_def split: if_splits)
    from wfg_down [OF w a this]
    show "\<exists>c cn. children nd ! k = Some c \<and> c \<notin> X \<and> s c = Some cn
                    \<and> parent cn = Some a \<and> unat (idx cn) = k" . }
  { fix a nd assume "s a = Some nd" "a \<notin> X"
    from wfg_root [OF w this]
    show "parent nd \<noteq> Some a \<and> (parent nd = None \<longrightarrow> idx nd = 0)" . }
qed

lemma place_root:
  assumes w: "wfg s p m j X" and sp: "s p = Some pn" and jm: "j < m"
    and sc: "s c = Some cn" and cr: "parent cn = None" and cnp: "c \<noteq> p" and cX: "c \<notin> X"
    and i: "unat i = j"
  shows "wfg (s(p \<mapsto> pn\<lparr>children := (children pn)[j := Some c]\<rparr>,
               c \<mapsto> cn\<lparr>parent := Some p, idx := i\<rparr>)) p m m X"
proof -
  let ?pn = "pn\<lparr>children := (children pn)[j := Some c]\<rparr>"
  let ?cn = "cn\<lparr>parent := Some p, idx := i\<rparr>"
  let ?s = "s(p \<mapsto> ?pn, c \<mapsto> ?cn)"
  from wfg_len [OF w sp] have lp: "length (children pn) = unat (alloced pn)" "m \<le> unat (alloced pn)"
    by (auto simp: deg_def)
  have link: "\<And>x xn. s x = Some xn \<Longrightarrow> x \<noteq> c \<Longrightarrow>
      \<exists>xn'. ?s x = Some xn' \<and> parent xn' = parent xn \<and> idx xn' = idx xn
         \<and> outDegree xn' = outDegree xn \<and> alloced xn' = alloced xn
         \<and> (x \<noteq> p \<longrightarrow> xn' = xn)"
    using sp by auto
  show ?thesis
  proof (rule wfgI)
    fix a nd assume a: "?s a = Some nd"
    show "length (children nd) = unat (alloced nd) \<and> unat (outDegree nd) \<le> unat (alloced nd)
          \<and> deg p m a nd \<le> unat (alloced nd)"
      using a wfg_len [OF w sp] wfg_len [OF w sc] wfg_len [OF w, of a nd] cnp
      by (auto simp: deg_def split: if_splits)
  next
    fix a nd k assume a: "?s a = Some nd" and k: "k < deg p m a nd" and h: "a = p \<Longrightarrow> k \<noteq> m"
    consider (c) "a = c" | (p) "a = p" "a \<noteq> c" | (o) "a \<noteq> p" "a \<noteq> c" by blast
    then show "\<exists>c' cn'. children nd ! k = Some c' \<and> c' \<notin> X \<and> ?s c' = Some cn'
                    \<and> parent cn' = Some a \<and> unat (idx cn') = k"
    proof cases
      case c
      with a cnp k have "k < deg p m c cn" "nd = ?cn" by (auto simp: deg_def)
      with wfg_down [OF w sc, of k] cnp obtain c' cn' where
        x: "children cn ! k = Some c'" "c' \<notin> X" "s c' = Some cn'" "parent cn' = Some c" "unat (idx cn') = k"
        by auto
      with cr sc cnp have "c' \<noteq> c" by auto
      from link [OF x(3) this] x c \<open>nd = ?cn\<close> show ?thesis by auto
    next
      case p
      with a have nd: "nd = ?pn" by auto
      show ?thesis
      proof (cases "k = j")
        case True
        with nd p cnp i lp jm cX show ?thesis by auto
      next
        case False
        from k p have "k < deg p m p pn" by (simp add: deg_def)
        with wfg_down [OF w sp, of k] h p False obtain c' cn' where
          x: "children pn ! k = Some c'" "c' \<notin> X" "s c' = Some cn'" "parent cn' = Some p" "unat (idx cn') = k"
          by auto
        with cr sc have "c' \<noteq> c" by auto
        from link [OF x(3) this] x nd p False show ?thesis by auto
      qed
    next
      case o
      with a have nd: "s a = Some nd" by auto
      from k o have "k < deg p m a nd" by (simp add: deg_def)
      with wfg_down [OF w nd, of k] o obtain c' cn' where
        x: "children nd ! k = Some c'" "c' \<notin> X" "s c' = Some cn'" "parent cn' = Some a" "unat (idx cn') = k"
        by auto
      with cr sc o have "c' \<noteq> c" by auto
      from link [OF x(3) this] x show ?thesis by auto
    qed
  next
    fix a nd assume a: "?s a = Some nd" and aX: "a \<notin> X"
    show "parent nd \<noteq> Some a \<and> (parent nd = None \<longrightarrow> idx nd = 0)"
      using a aX wfg_root [OF w sp] wfg_root [OF w, of a nd] cnp
      by (auto split: if_splits)
  qed
qed

lemma detach_hole:
  assumes w: "wfg s p m j' X" and mj: "m \<le> j'" and sp: "s p = Some pn"
    and sc: "s c = Some cn" and cp: "parent cn = Some p" and cX: "c \<notin> X"
    and j: "j = unat (idx cn)"
  shows "wfg (s(p \<mapsto> pn\<lparr>children := (children pn)[j := x]\<rparr>)) p m j (insert c X)"
proof -
  let ?pn = "pn\<lparr>children := (children pn)[j := x]\<rparr>"
  let ?s = "s(p \<mapsto> ?pn)"
  from wfg_root [OF w sc cX] cp have cnp: "c \<noteq> p" by auto
  have link: "\<And>x xn. s x = Some xn \<Longrightarrow>
      \<exists>xn'. ?s x = Some xn' \<and> parent xn' = parent xn \<and> idx xn' = idx xn
         \<and> outDegree xn' = outDegree xn \<and> alloced xn' = alloced xn
         \<and> (x \<noteq> p \<longrightarrow> xn' = xn)"
    using sp by auto
  show ?thesis
  proof (rule wfgI)
    fix a nd assume a: "?s a = Some nd"
    show "length (children nd) = unat (alloced nd) \<and> unat (outDegree nd) \<le> unat (alloced nd)
          \<and> deg p m a nd \<le> unat (alloced nd)"
      using a wfg_len [OF w sp] wfg_len [OF w, of a nd]
      by (auto simp: deg_def split: if_splits)
  next
    fix a nd k assume a: "?s a = Some nd" and k: "k < deg p m a nd" and h: "a = p \<Longrightarrow> k \<noteq> j"
    from a obtain nd0 where nd0: "s a = Some nd0" "deg p m a nd0 = deg p m a nd"
      "a \<noteq> p \<Longrightarrow> nd = nd0" "a = p \<Longrightarrow> nd0 = pn \<and> nd = ?pn"
      using sp by (auto simp: deg_def split: if_splits)
    from k nd0 mj have "k < deg p m a nd0" "a = p \<Longrightarrow> k \<noteq> j'" by (auto simp: deg_def)
    from wfg_down [OF w nd0(1) this] obtain c' cn' where
      x: "children nd0 ! k = Some c'" "c' \<notin> X" "s c' = Some cn'" "parent cn' = Some a" "unat (idx cn') = k"
      by auto
    have "c' \<noteq> c" using x sc cp j h by auto
    with link [OF x(3)] x nd0 h show "\<exists>c' cn'. children nd ! k = Some c' \<and> c' \<notin> insert c X \<and> ?s c' = Some cn'
                    \<and> parent cn' = Some a \<and> unat (idx cn') = k"
      by (cases "a = p") auto
  next
    fix a nd assume a: "?s a = Some nd" and aX: "a \<notin> insert c X"
    show "parent nd \<noteq> Some a \<and> (parent nd = None \<longrightarrow> idx nd = 0)"
      using a aX wfg_root [OF w sp] wfg_root [OF w, of a nd]
      by (auto split: if_splits)
  qed
qed

lemma unexempt:
  assumes w: "wfg s p m j (insert c X)" and sc: "s c = Some cn"
  shows "wfg (s(c \<mapsto> cn\<lparr>parent := None, idx := 0\<rparr>)) p m j X"
proof -
  let ?cn = "cn\<lparr>parent := None, idx := 0\<rparr>"
  let ?s = "s(c \<mapsto> ?cn)"
  show ?thesis
  proof (rule wfgI)
    fix a nd assume a: "?s a = Some nd"
    show "length (children nd) = unat (alloced nd) \<and> unat (outDegree nd) \<le> unat (alloced nd)
          \<and> deg p m a nd \<le> unat (alloced nd)"
      using a wfg_len [OF w sc] wfg_len [OF w, of a nd]
      by (auto simp: deg_def split: if_splits)
  next
    fix a nd k assume a: "?s a = Some nd" and k: "k < deg p m a nd" and h: "a = p \<Longrightarrow> k \<noteq> j"
    from a obtain nd0 where nd0: "s a = Some nd0" "deg p m a nd0 = deg p m a nd"
      "children nd0 = children nd"
      using sc by (auto simp: deg_def split: if_splits)
    from k nd0 have "k < deg p m a nd0" by auto
    from wfg_down [OF w nd0(1) this h] obtain c' cn' where
      x: "children nd0 ! k = Some c'" "c' \<notin> insert c X" "s c' = Some cn'" "parent cn' = Some a" "unat (idx cn') = k"
      by auto
    then show "\<exists>c' cn'. children nd ! k = Some c' \<and> c' \<notin> X \<and> ?s c' = Some cn'
                    \<and> parent cn' = Some a \<and> unat (idx cn') = k"
      using nd0 by auto
  next
    fix a nd assume a: "?s a = Some nd" and aX: "a \<notin> X"
    show "parent nd \<noteq> Some a \<and> (parent nd = None \<longrightarrow> idx nd = 0)"
      using a aX wfg_root [OF w, of a nd]
      by (auto split: if_splits)
  qed
qed

lemma wfg_set_outDegree:
  assumes w: "wfg s p m j X" and sp: "s p = Some pn" and d: "unat d \<le> unat (alloced pn)"
  shows "wfg (s(p \<mapsto> pn\<lparr>outDegree := d\<rparr>)) p m j X"
proof -
  let ?s = "s(p \<mapsto> pn\<lparr>outDegree := d\<rparr>)"
  have link: "\<And>x xn. s x = Some xn \<Longrightarrow>
      \<exists>xn'. ?s x = Some xn' \<and> parent xn' = parent xn \<and> idx xn' = idx xn
         \<and> children xn' = children xn \<and> alloced xn' = alloced xn
         \<and> deg p m x xn' = deg p m x xn"
    using sp by (auto simp: deg_def)
  have orig: "\<And>x xn'. ?s x = Some xn' \<Longrightarrow>
      \<exists>xn. s x = Some xn \<and> parent xn' = parent xn \<and> idx xn' = idx xn
         \<and> children xn' = children xn \<and> alloced xn' = alloced xn
         \<and> deg p m x xn' = deg p m x xn \<and> (x \<noteq> p \<longrightarrow> xn' = xn)"
    using sp by (auto simp: deg_def split: if_splits)
  show ?thesis
  proof (rule wfgI)
    fix a nd assume a: "?s a = Some nd"
    show "length (children nd) = unat (alloced nd) \<and> unat (outDegree nd) \<le> unat (alloced nd)
          \<and> deg p m a nd \<le> unat (alloced nd)"
      using a wfg_len [OF w sp] wfg_len [OF w, of a nd] d
      by (auto simp: deg_def split: if_splits)
  next
    fix a nd k assume a: "?s a = Some nd" and k: "k < deg p m a nd" and h: "a = p \<Longrightarrow> k \<noteq> j"
    from orig [OF a] obtain nd0 where nd0: "s a = Some nd0" "children nd = children nd0"
      "deg p m a nd = deg p m a nd0" by auto
    from k nd0 have "k < deg p m a nd0" by auto
    from wfg_down [OF w nd0(1) this h] obtain c' cn' where
      x: "children nd0 ! k = Some c'" "c' \<notin> X" "s c' = Some cn'" "parent cn' = Some a" "unat (idx cn') = k"
      by auto
    with link [OF x(3)] nd0 show "\<exists>c' cn'. children nd ! k = Some c' \<and> c' \<notin> X \<and> ?s c' = Some cn'
                    \<and> parent cn' = Some a \<and> unat (idx cn') = k"
      by auto
  next
    fix a nd assume a: "?s a = Some nd" and aX: "a \<notin> X"
    from orig [OF a] obtain nd0 where nd0: "s a = Some nd0" "parent nd = parent nd0" "idx nd = idx nd0"
      by auto
    with wfg_root [OF w nd0(1) aX]
    show "parent nd \<noteq> Some a \<and> (parent nd = None \<longrightarrow> idx nd = 0)" by auto
  qed
qed

lemma wf_heap_wfg: "wf_heap s \<Longrightarrow> wfg s p (dg s p) (dg s p) {}"
  apply (rule wfgI)
  subgoal for a nd
    unfolding wf_heap_def by (erule allE [of _ a], erule allE [of _ nd]) (auto simp: deg_def dg_def)
  subgoal for a nd k
    unfolding wf_heap_def by (erule allE [of _ a], erule allE [of _ nd]) (auto simp: deg_def dg_def split: if_splits)
  subgoal for a nd
    unfolding wf_heap_def by (erule allE [of _ a], erule allE [of _ nd]) auto
  done

lemma wfg_wf_heap:
  assumes w: "wfg s p (dg s p) j {}" and j: "dg s p \<le> j"
  shows "wf_heap s"
  unfolding wf_heap_def
proof (intro allI impI)
  fix a nd assume a: "s a = Some nd"
  from wfg_len [OF w a]
  have 1: "length (children nd) = unat (alloced nd)" "unat (outDegree nd) \<le> unat (alloced nd)"
    by auto
  have 2: "\<forall>k<unat (outDegree nd). \<exists>c cn. children nd ! k = Some c \<and> s c = Some cn
                     \<and> parent cn = Some a \<and> unat (idx cn) = k"
  proof (intro allI impI)
    fix k assume "k < unat (outDegree nd)"
    with a j have "k < deg p (dg s p) a nd" "a = p \<Longrightarrow> k \<noteq> j" by (auto simp: deg_def dg_def)
    from wfg_down [OF w a this]
    show "\<exists>c cn. children nd ! k = Some c \<and> s c = Some cn
                     \<and> parent cn = Some a \<and> unat (idx cn) = k" by blast
  qed
  from wfg_root [OF w a]
  have 3: "parent nd \<noteq> Some a \<and> (parent nd = None \<longrightarrow> idx nd = 0)" by simp
  from 1 2 3
  show "length (children nd) = unat (alloced nd) \<and> unat (outDegree nd) \<le> unat (alloced nd)
        \<and> (\<forall>k < unat (outDegree nd).
              \<exists>c cn. children nd ! k = Some c \<and> s c = Some cn
                     \<and> parent cn = Some a \<and> unat (idx cn) = k)
        \<and> parent nd \<noteq> Some a \<and> (parent nd = None \<longrightarrow> idx nd = 0)"
    by blast
qed

lemma wf_heap_index_inv: "wf_heap s \<Longrightarrow> index_inv s"
  unfolding index_inv_def
proof (intro allI impI)
  fix p pn k assume w: "wf_heap s" and p: "s p = Some pn" and k: "k < unat (outDegree pn)"
  from w p have l: "length (children pn) = unat (alloced pn)" "unat (outDegree pn) \<le> unat (alloced pn)"
    and d: "\<forall>k < unat (outDegree pn). \<exists>c cn. children pn ! k = Some c \<and> s c = Some cn
                     \<and> parent cn = Some p \<and> unat (idx cn) = k"
    unfolding wf_heap_def by blast+
  from k unat_bound [of "outDegree pn"] have "unat (of_nat k :: uint) = k"
    by (simp add: unat_of_nat)
  with d k l show "\<exists>c cn. child_at pn (of_nat k) = Inr (Some c) \<and> s c = Some cn \<and> unat (idx cn) = k"
    by (auto simp: child_at_def)
qed

lemma free_child_hole:
  assumes w: "wfg s p m j' X" and mj: "m \<le> j'" and sp: "s p = Some pn" and jm: "j < m"
    and cj: "children pn ! j = Some c"
  shows "wfg (s(c := None)) p m j X"
proof -
  let ?s = "s(c := None)"
  from wfg_down [OF w sp, of j] jm mj cj obtain cn where
    sc: "s c = Some cn" "c \<notin> X" "parent cn = Some p" "unat (idx cn) = j"
    by (auto simp: deg_def)
  from wfg_root [OF w sc(1,2)] sc have cnp: "c \<noteq> p" by auto
  show ?thesis
  proof (rule wfgI)
    fix a nd assume a: "?s a = Some nd"
    then show "length (children nd) = unat (alloced nd) \<and> unat (outDegree nd) \<le> unat (alloced nd)
          \<and> deg p m a nd \<le> unat (alloced nd)"
      using wfg_len [OF w, of a nd] by (auto split: if_splits)
  next
    fix a nd k assume a: "?s a = Some nd" and k: "k < deg p m a nd" and h: "a = p \<Longrightarrow> k \<noteq> j"
    from a have a0: "s a = Some nd" "a \<noteq> c" by (auto split: if_splits)
    from k mj have "a = p \<Longrightarrow> k \<noteq> j'" by (auto simp: deg_def)
    from wfg_down [OF w a0(1) k this] obtain c' cn' where
      x: "children nd ! k = Some c'" "c' \<notin> X" "s c' = Some cn'" "parent cn' = Some a" "unat (idx cn') = k"
      by auto
    have "c' \<noteq> c" using x sc h by auto
    with x show "\<exists>c' cn'. children nd ! k = Some c' \<and> c' \<notin> X \<and> ?s c' = Some cn'
                    \<and> parent cn' = Some a \<and> unat (idx cn') = k"
      by auto
  next
    fix a nd assume a: "?s a = Some nd" and aX: "a \<notin> X"
    then show "parent nd \<noteq> Some a \<and> (parent nd = None \<longrightarrow> idx nd = 0)"
      using wfg_root [OF w, of a nd] by (auto split: if_splits)
  qed
qed

lemma free_root:
  assumes w: "wfg s p m j X" and sr: "s r = Some rn" and rr: "parent rn = None" and rX: "r \<notin> X"
  shows "wfg (s(r := None)) p m j X"
proof -
  let ?s = "s(r := None)"
  show ?thesis
  proof (rule wfgI)
    fix a nd assume a: "?s a = Some nd"
    then show "length (children nd) = unat (alloced nd) \<and> unat (outDegree nd) \<le> unat (alloced nd)
          \<and> deg p m a nd \<le> unat (alloced nd)"
      using wfg_len [OF w, of a nd] by (auto split: if_splits)
  next
    fix a nd k assume a: "?s a = Some nd" and k: "k < deg p m a nd" and h: "a = p \<Longrightarrow> k \<noteq> j"
    from a have a0: "s a = Some nd" "a \<noteq> r" by (auto split: if_splits)
    from wfg_down [OF w a0(1) k h] obtain c' cn' where
      x: "children nd ! k = Some c'" "c' \<notin> X" "s c' = Some cn'" "parent cn' = Some a" "unat (idx cn') = k"
      by auto
    have "c' \<noteq> r" using x sr rr by auto
    with x show "\<exists>c' cn'. children nd ! k = Some c' \<and> c' \<notin> X \<and> ?s c' = Some cn'
                    \<and> parent cn' = Some a \<and> unat (idx cn') = k"
      by auto
  next
    fix a nd assume a: "?s a = Some nd" and aX: "a \<notin> X"
    then show "parent nd \<noteq> Some a \<and> (parent nd = None \<longrightarrow> idx nd = 0)"
      using wfg_root [OF w, of a nd] by (auto split: if_splits)
  qed
qed

lemma wfg_alloc:
  assumes w: "wfg s p m j X" and f1: "s a0 = None" and ap: "a0 \<noteq> p"
  shows "wfg (s(a0 \<mapsto> \<lparr>parent = None, children = [], outDegree = 0, data = d,
                         alloced = 0, idx = 0, hgt = 0\<rparr>)) p m j X"
proof -
  let ?n = "\<lparr>parent = None, children = [], outDegree = 0, data = d,
                         alloced = 0, idx = 0, hgt = 0\<rparr> :: 'a TreeNode"
  let ?s = "s(a0 \<mapsto> ?n)"
  show ?thesis
  proof (rule wfgI)
    fix a nd assume a: "?s a = Some nd"
    then show "length (children nd) = unat (alloced nd) \<and> unat (outDegree nd) \<le> unat (alloced nd)
          \<and> deg p m a nd \<le> unat (alloced nd)"
      using wfg_len [OF w, of a nd] ap by (auto simp: deg_def split: if_splits)
  next
    fix a nd k assume a: "?s a = Some nd" and k: "k < deg p m a nd" and h: "a = p \<Longrightarrow> k \<noteq> j"
    from a k ap have a0: "s a = Some nd" "a \<noteq> a0" by (auto simp: deg_def split: if_splits)
    from wfg_down [OF w a0(1) k h] obtain c' cn' where
      x: "children nd ! k = Some c'" "c' \<notin> X" "s c' = Some cn'" "parent cn' = Some a" "unat (idx cn') = k"
      by auto
    have "c' \<noteq> a0" using x f1 by auto
    with x show "\<exists>c' cn'. children nd ! k = Some c' \<and> c' \<notin> X \<and> ?s c' = Some cn'
                    \<and> parent cn' = Some a \<and> unat (idx cn') = k"
      by auto
  next
    fix a nd assume a: "?s a = Some nd" and aX: "a \<notin> X"
    then show "parent nd \<noteq> Some a \<and> (parent nd = None \<longrightarrow> idx nd = 0)"
      using wfg_root [OF w, of a nd] by (auto split: if_splits)
  qed
qed

lemma wfg_grow:
  assumes w: "wfg s p m j X" and sn: "s n = Some nd0" and sz: "unat (alloced nd0) < unat sz"
  shows "wfg (s(n \<mapsto> nd0\<lparr>children := take (unat sz) (children nd0)
                                       @ replicate (unat sz - length (children nd0)) None,
                           alloced := sz\<rparr>)) p m j X"
proof -
  let ?cs = "take (unat sz) (children nd0) @ replicate (unat sz - length (children nd0)) None"
  let ?nd = "nd0\<lparr>children := ?cs, alloced := sz\<rparr>"
  let ?s = "s(n \<mapsto> ?nd)"
  from wfg_len [OF w sn] have l0: "length (children nd0) = unat (alloced nd0)"
    "unat (outDegree nd0) \<le> unat (alloced nd0)" "deg p m n nd0 \<le> unat (alloced nd0)" by auto
  with sz have cs: "length ?cs = unat sz" "\<And>k. k < unat (alloced nd0) \<Longrightarrow> ?cs ! k = children nd0 ! k"
    by (auto simp: nth_append)
  have orig: "\<And>x xn'. ?s x = Some xn' \<Longrightarrow>
      \<exists>xn. s x = Some xn \<and> parent xn' = parent xn \<and> idx xn' = idx xn
         \<and> outDegree xn' = outDegree xn \<and> deg p m x xn' = deg p m x xn
         \<and> (x \<noteq> n \<longrightarrow> xn' = xn) \<and> (x = n \<longrightarrow> xn = nd0 \<and> xn' = ?nd)"
    using sn by (auto simp: deg_def split: if_splits)
  have link: "\<And>x xn. s x = Some xn \<Longrightarrow>
      \<exists>xn'. ?s x = Some xn' \<and> parent xn' = parent xn \<and> idx xn' = idx xn"
    using sn by auto
  have nth: "\<And>x xn xn' k. ?s x = Some xn' \<Longrightarrow> s x = Some xn \<Longrightarrow> k < deg p m x xn
       \<Longrightarrow> children xn' ! k = children xn ! k"
    using sn cs l0 by (auto simp del: nth_append split: if_splits)
  show ?thesis
  proof (rule wfgI)
    fix a nd assume a: "?s a = Some nd"
    from orig [OF a] obtain x where x: "s a = Some x" "deg p m a nd = deg p m a x"
       "outDegree nd = outDegree x" "a \<noteq> n \<longrightarrow> nd = x" "a = n \<longrightarrow> x = nd0 \<and> nd = ?nd" by blast
    show "length (children nd) = unat (alloced nd) \<and> unat (outDegree nd) \<le> unat (alloced nd)
          \<and> deg p m a nd \<le> unat (alloced nd)"
    proof (cases "a = n")
      case True
      with x l0 sz cs(1) show ?thesis by simp
    next
      case False
      with x wfg_len [OF w x(1)] show ?thesis by simp
    qed
  next
    fix a nd k assume a: "?s a = Some nd" and k: "k < deg p m a nd" and h: "a = p \<Longrightarrow> k \<noteq> j"
    from orig [OF a] obtain x where x: "s a = Some x" "deg p m a nd = deg p m a x" by blast
    with k have k': "k < deg p m a x" by simp
    from wfg_down [OF w x(1) k' h] obtain c' cn' where
      y: "children x ! k = Some c'" "c' \<notin> X" "s c' = Some cn'" "parent cn' = Some a" "unat (idx cn') = k"
      by auto
    from nth [OF a x(1) k'] y link [OF y(3)]
    show "\<exists>c' cn'. children nd ! k = Some c' \<and> c' \<notin> X \<and> ?s c' = Some cn'
                    \<and> parent cn' = Some a \<and> unat (idx cn') = k"
      by auto
  next
    fix a nd assume a: "?s a = Some nd" and aX: "a \<notin> X"
    from orig [OF a] obtain x where x: "s a = Some x" "parent nd = parent x" "idx nd = idx x" by blast
    with wfg_root [OF w x(1) aX]
    show "parent nd \<noteq> Some a \<and> (parent nd = None \<longrightarrow> idx nd = 0)" by simp
  qed
qed

lemma wfg_exempt:
  assumes w: "wfg s p m j X"
    and nc: "\<And>a nd k. s a = Some nd \<Longrightarrow> k < deg p m a nd \<Longrightarrow> (a = p \<Longrightarrow> k \<noteq> j)
               \<Longrightarrow> children nd ! k \<noteq> Some c"
  shows "wfg s p m j (insert c X)"
proof (rule wfgI)
  fix a nd assume "s a = Some nd"
  from wfg_len [OF w this]
  show "length (children nd) = unat (alloced nd) \<and> unat (outDegree nd) \<le> unat (alloced nd)
          \<and> deg p m a nd \<le> unat (alloced nd)" .
next
  fix a nd k assume a: "s a = Some nd" and k: "k < deg p m a nd" and h: "a = p \<Longrightarrow> k \<noteq> j"
  from wfg_down [OF w a k h] obtain c' cn' where
    x: "children nd ! k = Some c'" "c' \<notin> X" "s c' = Some cn'" "parent cn' = Some a" "unat (idx cn') = k"
    by auto
  with nc [OF a k h] have "c' \<noteq> c" by auto
  with x show "\<exists>c' cn'. children nd ! k = Some c' \<and> c' \<notin> insert c X \<and> s c' = Some cn'
                    \<and> parent cn' = Some a \<and> unat (idx cn') = k"
    by auto
next
  fix a nd assume "s a = Some nd" "a \<notin> insert c X"
  with wfg_root [OF w, of a nd]
  show "parent nd \<noteq> Some a \<and> (parent nd = None \<longrightarrow> idx nd = 0)" by simp
qed

lemma wfg_write_hole:
  assumes w: "wfg s p m j X" and sp: "s p = Some pn"
  shows "wfg (s(p \<mapsto> pn\<lparr>children := (children pn)[j := x]\<rparr>)) p m j X"
proof -
  let ?pn = "pn\<lparr>children := (children pn)[j := x]\<rparr>"
  let ?s = "s(p \<mapsto> ?pn)"
  have link: "\<And>x xn. s x = Some xn \<Longrightarrow>
      \<exists>xn'. ?s x = Some xn' \<and> parent xn' = parent xn \<and> idx xn' = idx xn"
    using sp by auto
  show ?thesis
  proof (rule wfgI)
    fix a nd assume a: "?s a = Some nd"
    show "length (children nd) = unat (alloced nd) \<and> unat (outDegree nd) \<le> unat (alloced nd)
          \<and> deg p m a nd \<le> unat (alloced nd)"
      using a wfg_len [OF w sp] wfg_len [OF w, of a nd]
      by (auto simp: deg_def split: if_splits)
  next
    fix a nd k assume a: "?s a = Some nd" and k: "k < deg p m a nd" and h: "a = p \<Longrightarrow> k \<noteq> j"
    from a obtain nd0 where nd0: "s a = Some nd0" "deg p m a nd0 = deg p m a nd"
      "a \<noteq> p \<Longrightarrow> nd = nd0" "a = p \<Longrightarrow> nd0 = pn \<and> nd = ?pn"
      using sp by (auto simp: deg_def split: if_splits)
    from k nd0 have "k < deg p m a nd0" by auto
    from wfg_down [OF w nd0(1) this h] obtain c' cn' where
      x: "children nd0 ! k = Some c'" "c' \<notin> X" "s c' = Some cn'" "parent cn' = Some a" "unat (idx cn') = k"
      by auto
    with link [OF x(3)] nd0 h show "\<exists>c' cn'. children nd ! k = Some c' \<and> c' \<notin> X \<and> ?s c' = Some cn'
                    \<and> parent cn' = Some a \<and> unat (idx cn') = k"
      by (cases "a = p") auto
  next
    fix a nd assume a: "?s a = Some nd" and aX: "a \<notin> X"
    show "parent nd \<noteq> Some a \<and> (parent nd = None \<longrightarrow> idx nd = 0)"
      using a aX wfg_root [OF w sp] wfg_root [OF w, of a nd]
      by (auto split: if_splits)
  qed
qed

lemma wfg_drop_last:
  assumes w: "wfg s p (Suc m) j X" and mj: "m \<le> j"
  shows "wfg s p m m X"
proof (rule wfgI)
  fix a nd assume a: "s a = Some nd"
  from wfg_len [OF w a]
  show "length (children nd) = unat (alloced nd) \<and> unat (outDegree nd) \<le> unat (alloced nd)
          \<and> deg p m a nd \<le> unat (alloced nd)"
    by (auto simp: deg_def split: if_splits)
next
  fix a nd k assume a: "s a = Some nd" and k: "k < deg p m a nd" and hj: "a = p \<Longrightarrow> k \<noteq> m"
  from k mj have "k < deg p (Suc m) a nd" "a = p \<Longrightarrow> k \<noteq> j"
    by (auto simp: deg_def split: if_splits)
  from wfg_down [OF w a this]
  show "\<exists>c cn. children nd ! k = Some c \<and> c \<notin> X \<and> s c = Some cn
                    \<and> parent cn = Some a \<and> unat (idx cn) = k" .
next
  fix a nd assume "s a = Some nd" "a \<notin> X"
  from wfg_root [OF w this]
  show "parent nd \<noteq> Some a \<and> (parent nd = None \<longrightarrow> idx nd = 0)" .
qed

lemma child_at_nth:
  assumes "k < unat (outDegree pn)" and "unat (outDegree pn) \<le> unat (alloced pn)"
    and "length (children pn) = unat (alloced pn)"
  shows "child_at pn (of_nat k) = Inr (children pn ! k)"
proof -
  from assms(1) unat_bound [of "outDegree pn"] have "unat (of_nat k :: uint) = k"
    by (simp add: unat_of_nat)
  with assms show ?thesis by (simp add: child_at_def)
qed

lemma wf_heap_node:
  assumes "wf_heap s" and "s a = Some nd"
  shows "length (children nd) = unat (alloced nd)" "unat (outDegree nd) \<le> unat (alloced nd)"
    "\<And>k. k < unat (outDegree nd) \<Longrightarrow>
        \<exists>c cn. children nd ! k = Some c \<and> s c = Some cn \<and> parent cn = Some a \<and> unat (idx cn) = k"
proof -
  from assms have x: "length (children nd) = unat (alloced nd) \<and> unat (outDegree nd) \<le> unat (alloced nd)
        \<and> (\<forall>k < unat (outDegree nd).
              \<exists>c cn. children nd ! k = Some c \<and> s c = Some cn
                     \<and> parent cn = Some a \<and> unat (idx cn) = k)"
    unfolding wf_heap_def by (elim allE [of _ a] allE [of _ nd] impE) simp_all
  from x show "length (children nd) = unat (alloced nd)" "unat (outDegree nd) \<le> unat (alloced nd)"
    by simp_all
  fix k assume "k < unat (outDegree nd)"
  with x show "\<exists>c cn. children nd ! k = Some c \<and> s c = Some cn \<and> parent cn = Some a \<and> unat (idx cn) = k"
    by simp
qed

lemma hgt_only_refl: "hgt_only s s"
  unfolding hgt_only_def
proof
  fix a show "case s a of None \<Rightarrow> s a = None | Some nd \<Rightarrow> \<exists>h. s a = Some (nd\<lparr>hgt := h\<rparr>)"
  proof (cases "s a")
    case (Some nd)
    have "nd = nd\<lparr>hgt := hgt nd\<rparr>" by simp
    with Some show ?thesis by (auto intro: exI [of _ "hgt nd"])
  qed simp
qed

lemma hgt_only_step:
  assumes a: "s a = Some nd" and h: "hgt_only (s(a \<mapsto> nd\<lparr>hgt := hv\<rparr>)) s'"
  shows "hgt_only s s'"
  unfolding hgt_only_def
proof
  fix b
  from h have hb: "case (s(a \<mapsto> nd\<lparr>hgt := hv\<rparr>)) b of None \<Rightarrow> s' b = None
      | Some nd \<Rightarrow> \<exists>h. s' b = Some (nd\<lparr>hgt := h\<rparr>)"
    unfolding hgt_only_def by (rule allE)
  show "case s b of None \<Rightarrow> s' b = None | Some nd \<Rightarrow> \<exists>h. s' b = Some (nd\<lparr>hgt := h\<rparr>)"
  proof (cases "b = a")
    case True
    with hb a show ?thesis by auto
  next
    case False
    with hb show ?thesis by simp
  qed
qed

lemma chain_same_parents:
  assumes c: "chain s x" and p: "\<And>a nd. s a = Some nd \<Longrightarrow> \<exists>nd'. s' a = Some nd' \<and> parent nd' = parent nd"
  shows "chain s' x"
  using c
proof induction
  case chain_null
  show ?case by (rule chain.chain_null)
next
  case (chain_step a nd)
  from p [OF chain_step.hyps(1)] obtain nd' where "s' a = Some nd'" "parent nd' = parent nd" by blast
  with chain_step.IH show ?case by (auto intro: chain.chain_step)
qed

lemma hgt_only_parents:
  "hgt_only s s' \<Longrightarrow> s a = Some nd \<Longrightarrow> \<exists>nd'. s' a = Some nd' \<and> parent nd' = parent nd"
  unfolding hgt_only_def by (erule allE [of _ a]) auto

lemma hgt_only_parents_rev:
  "hgt_only s s' \<Longrightarrow> s' a = Some nd' \<Longrightarrow> \<exists>nd. s a = Some nd \<and> parent nd = parent nd'"
  using hgt_onlyD [of s s' a nd'] by auto

lemma tree_update_height_result:
  assumes "tree_update_height n s = Some (Inr s')"
  shows "hgt_only s s' \<and> chain s n"
proof -
  define P :: "addr option \<Rightarrow> 'a heap \<Rightarrow> error + 'a heap \<Rightarrow> bool"
    where "P = (\<lambda>n s r. \<forall>s'. r = Inr s' \<longrightarrow> hgt_only s s' \<and> chain s n)"
  have step: "P n s r"
    if ih: "\<And>n s y. uh n s = Some y \<Longrightarrow> P n s y"
      and eq: "(case n of None \<Rightarrow> Some (Inr s)
        | Some a \<Rightarrow> (case s a of None \<Rightarrow> Some (Inl MemFault)
            | Some nd \<Rightarrow> (case max_child_h s nd of Inl e \<Rightarrow> Some (Inl e)
                | Inr hv \<Rightarrow> uh (parent nd) (s(a \<mapsto> nd\<lparr>hgt := hv\<rparr>))))) = Some r"
    for uh :: "addr option \<Rightarrow> 'a heap \<Rightarrow> (error + 'a heap) option" and n s r
    unfolding P_def
  proof (intro allI impI)
    fix s' assume r: "r = Inr s'"
    show "hgt_only s s' \<and> chain s n"
    proof (cases n)
      case None
      with eq r show ?thesis by (auto intro: hgt_only_refl chain.chain_null)
    next
      case (Some a)
      with eq r obtain nd hv where x: "s a = Some nd" "max_child_h s nd = Inr hv"
        "uh (parent nd) (s(a \<mapsto> nd\<lparr>hgt := hv\<rparr>)) = Some (Inr s')"
        by (auto split: option.splits sum.splits)
      from ih [OF x(3)] have ih': "hgt_only (s(a \<mapsto> nd\<lparr>hgt := hv\<rparr>)) s'"
        "chain (s(a \<mapsto> nd\<lparr>hgt := hv\<rparr>)) (parent nd)" by (auto simp: P_def)
      from hgt_only_step [OF x(1) ih'(1)] have h: "hgt_only s s'" .
      have "chain s (parent nd)"
        by (rule chain_same_parents [OF ih'(2)]) (use x(1) in \<open>auto split: if_splits\<close>)
      with x(1) Some h show ?thesis by (auto intro: chain.chain_step)
    qed
  qed
  have "P n s (Inr s')"
    by (rule tree_update_height.raw_induct [where P = P, OF step assms])
  then show ?thesis by (simp add: P_def)
qed

lemma no_chain_self_parent:
  assumes "chain s x" and "s n = Some nd" and "parent nd = Some n"
  shows "x \<noteq> Some n"
  using assms by induction auto

lemma find_child_at:
  assumes "unat t < unat (outDegree pn)" and "unat (outDegree pn) \<le> unat (alloced pn)"
    and "length (children pn) = unat (alloced pn)" and "children pn ! unat t = Some c"
    and "\<forall>k. unat i \<le> k \<and> k < unat t \<longrightarrow> children pn ! k \<noteq> Some c" and "i \<le> t"
  shows "find_child pn c i = Inr t"
  using assms
proof (induction pn c i rule: find_child.induct)
  case (1 pn c i)
  from 1(2,7) have lt: "i < outDegree pn" by (simp add: word_less_nat_alt word_le_nat_alt)
  from lt 1(3,4) have ca: "child_at pn i = Inr (children pn ! unat i)"
    by (simp add: child_at_def word_less_nat_alt)
  show ?case
  proof (cases "i = t")
    case True
    with lt ca 1(5) show ?thesis by (subst find_child.simps) simp
  next
    case False
    with 1(7) have "i < t" by simp
    then have it: "unat i < unat t" by (simp add: word_less_nat_alt)
    with 1(6) have ne: "children pn ! unat i \<noteq> Some c" by auto
    from lt have inc: "unat (i + 1) = Suc (unat i)" by (rule unat_inc)
    with it have le: "i + 1 \<le> t" by (simp add: word_le_nat_alt)
    have "find_child pn c (i + 1) = Inr t"
      by (rule 1(1) [OF lt ca ne 1(2,3,4,5) _ le]) (use 1(6) inc in auto)
    with lt ca ne show ?thesis by (subst find_child.simps) simp
  qed
qed

lemma find_child_none:
  assumes "unat (outDegree pn) \<le> unat (alloced pn)"
    and "length (children pn) = unat (alloced pn)"
    and "\<forall>k. unat i \<le> k \<and> k < unat (outDegree pn) \<longrightarrow> children pn ! k \<noteq> Some c"
    and "i \<le> outDegree pn"
  shows "find_child pn c i = Inr (outDegree pn)"
  using assms
proof (induction pn c i rule: find_child.induct)
  case (1 pn c i)
  show ?case
  proof (cases "i < outDegree pn")
    case False
    with 1(5) have "i = outDegree pn" by simp
    then show ?thesis by (subst find_child.simps) simp
  next
    case True
    then have lt: "unat i < unat (outDegree pn)" by (simp add: word_less_nat_alt)
    with 1(2,3) have ca: "child_at pn i = Inr (children pn ! unat i)"
      by (simp add: child_at_def)
    from lt 1(4) have ne: "children pn ! unat i \<noteq> Some c" by auto
    from True have inc: "unat (i + 1) = Suc (unat i)" by (rule unat_inc)
    with lt have le: "i + 1 \<le> outDegree pn" by (simp add: word_le_nat_alt)
    have "find_child pn c (i + 1) = Inr (outDegree pn)"
      by (rule 1(1) [OF True ca ne 1(2,3) _ le]) (use 1(4) inc in auto)
    with True ca ne show ?thesis by (subst find_child.simps) simp
  qed
qed

lemma remove_shift_wfg:
  assumes "wfg s p m j X" and "s p = Some pn" and "m = unat (outDegree pn)" and "j < m"
    and "unat i = j" and "remove_shift s p i = Inr s'"
  shows "wfg s' p m (m - 1) X \<and>
         (\<exists>pn'. s' p = Some pn' \<and> outDegree pn' = outDegree pn \<and> alloced pn' = alloced pn
            \<and> (\<forall>k<j. children pn' ! k = children pn ! k)
            \<and> (\<forall>k. j \<le> k \<and> k < m - 1 \<longrightarrow> children pn' ! k = children pn ! Suc k))"
  using assms
proof (induction s p i arbitrary: pn j rule: remove_shift.induct)
  case (1 s p i)
  note w = 1(2) and sp = 1(3) and m = 1(4) and jm = 1(5) and ij = 1(6) and rs = 1(7)
  from jm m have od0: "outDegree pn \<noteq> 0" by auto
  then have um: "unat (outDegree pn - 1) = m - 1" using m by (simp add: unat_minus_one)
  show ?case
  proof (cases "i < outDegree pn - 1")
    case False
    with rs sp have "s' = s" by (subst (asm) remove_shift.simps) simp
    moreover from False um ij jm have "j = m - 1" by (simp add: word_less_nat_alt)
    ultimately show ?thesis using w sp by auto
  next
    case True
    with um ij have sj: "Suc j < m" by (simp add: word_less_nat_alt)
    from True have inc: "unat (i + 1) = Suc j" using unat_inc [OF True] ij by simp
    from wfg_len [OF w sp] have lp: "length (children pn) = unat (alloced pn)"
      "m \<le> unat (alloced pn)" by (auto simp: deg_def)
    from wfg_down [OF w sp, of "Suc j"] sj obtain ca cn where
      x: "children pn ! Suc j = Some ca" "ca \<notin> X" "s ca = Some cn" "parent cn = Some p"
         "unat (idx cn) = Suc j"
      by (auto simp: deg_def)
    from wfg_root [OF w x(3) x(2)] x(4) have cap: "ca \<noteq> p" by auto
    let ?pn = "pn\<lparr>children := (children pn)[j := Some ca]\<rparr>"
    let ?s1 = "s(p \<mapsto> ?pn, ca \<mapsto> cn\<lparr>idx := i\<rparr>)"
    have c1: "child_at pn (i + 1) = Inr (Some ca)"
      using inc sj lp x(1) by (simp add: child_at_def)
    have c2: "set_child_at pn i (Some ca) = Inr ?pn"
      using ij sj lp by (simp add: set_child_at_def)
    from rs sp True c1 c2 x(3) cap have rs1: "remove_shift ?s1 p (i + 1) = Inr s'"
      by (subst (asm) remove_shift.simps) simp
    have w1: "wfg ?s1 p m (Suc j) X"
      by (rule place_move [OF w sp _ sj _ x(1) x(3) ij]) (use sj in auto)
    have sp1: "?s1 p = Some ?pn" using cap by simp
    from "1.IH" [OF sp True c1 c2 refl _ w1 sp1 _ sj inc rs1] x(3) cap m
    obtain pn' where r: "wfg s' p m (m - 1) X" "s' p = Some pn'" "outDegree pn' = outDegree pn"
      "alloced pn' = alloced pn" "\<forall>k<Suc j. children pn' ! k = children ?pn ! k"
      "\<forall>k. Suc j \<le> k \<and> k < m - 1 \<longrightarrow> children pn' ! k = children ?pn ! Suc k"
      by auto
    have a: "\<forall>k<j. children pn' ! k = children pn ! k" using r(5) by simp
    have b: "\<forall>k. j \<le> k \<and> k < m - 1 \<longrightarrow> children pn' ! k = children pn ! Suc k"
    proof (intro allI impI)
      fix k assume k: "j \<le> k \<and> k < m - 1"
      show "children pn' ! k = children pn ! Suc k"
      proof (cases "k = j")
        case True
        with r(5) x(1) lp sj show ?thesis by simp
      next
        case False
        with k r(6) show ?thesis by simp
      qed
    qed
    from r a b show ?thesis by blast
  qed
qed

lemma insert_shift_wfg:
  assumes "wfg s n (Suc m) j X" and "s n = Some nd" and "m = unat (outDegree nd)"
    and "unat i \<le> j" and "j \<le> m" and "0 < unat i" and "Suc (unat a) = j"
    and "insert_shift s n i a = Inr s'"
  shows "wfg s' n (Suc m) (unat i) X \<and>
         (\<exists>nd'. s' n = Some nd' \<and> outDegree nd' = outDegree nd \<and> alloced nd' = alloced nd)"
  using assms
proof (induction s n i a arbitrary: nd j rule: insert_shift.induct)
  case (1 s n i a)
  note w = 1(2) and sn = 1(3) and m = 1(4) and ij = 1(5) and jm = 1(6) and i0 = 1(7)
    and aj = 1(8) and ish = 1(9)
  show ?case
  proof (cases "i \<le> a")
    case False
    with ish have "s' = s" by (subst (asm) insert_shift.simps) simp
    moreover from False aj ij have "unat i = j" by (simp add: word_le_nat_alt)
    ultimately show ?thesis using w sn by auto
  next
    case True
    then have ia: "unat i \<le> unat a" by (simp add: word_le_nat_alt)
    with i0 have a0: "a \<noteq> 0" by auto
    from wfg_len [OF w sn] have lp: "length (children nd) = unat (alloced nd)"
      "Suc m \<le> unat (alloced nd)" by (auto simp: deg_def)
    have inc: "unat (a + 1) = j"
      using aj jm lp unat_bound [of "alloced nd"] by (simp add: unat_word_ariths)
    have dec: "Suc (unat (a - 1)) = unat a" using a0 by (simp add: unat_minus_one unat_gt_0)
    from wfg_down [OF w sn, of "unat a"] aj jm obtain ca cn where
      x: "children nd ! unat a = Some ca" "ca \<notin> X" "s ca = Some cn" "parent cn = Some n"
         "unat (idx cn) = unat a"
      by (auto simp: deg_def)
    from wfg_root [OF w x(3) x(2)] x(4) have can: "ca \<noteq> n" by auto
    let ?nd = "nd\<lparr>children := (children nd)[j := Some ca]\<rparr>"
    let ?s1 = "s(n \<mapsto> ?nd, ca \<mapsto> cn\<lparr>idx := a + 1\<rparr>)"
    have c1: "child_at nd a = Inr (Some ca)"
      using aj jm lp x(1) by (simp add: child_at_def)
    have c2: "set_child_at nd (a + 1) (Some ca) = Inr ?nd"
      using inc jm lp by (simp add: set_child_at_def)
    from ish sn True c1 c2 x(3) can have is1: "insert_shift ?s1 n i (a - 1) = Inr s'"
      by (subst (asm) insert_shift.simps) simp
    have w1: "wfg ?s1 n (Suc m) (unat a) X"
      by (rule place_move [OF w sn _ _ _ x(1) x(3) inc]) (use aj jm in auto)
    have sn1: "?s1 n = Some ?nd" using can by simp
    from "1.IH" [OF True sn c1 c2 refl _ w1 sn1 _ ia _ i0 dec is1] x(3) can m aj jm
    show ?thesis by auto
  qed
qed

lemma remove_shift_degree_zero:
  assumes "remove_shift s p i = Inr s'" and "s p = Some pn" and "outDegree pn = 0"
  shows "i = - 1"
  using assms
proof (induction s p i arbitrary: pn rule: remove_shift.induct)
  case (1 s p i)
  note rs = 1(2) and sp = 1(3) and od = 1(4)
  show ?case
  proof (cases "i < outDegree pn - 1")
    case False
    with od have "\<not> unat i < unat (- 1 :: uint)" by (simp add: word_less_nat_alt)
    with unat_bound [of i] have "unat i = unat (- 1 :: uint)"
      by (simp add: unat_minus1_uint)
    then show ?thesis by (simp only: word_unat_eq_iff)
  next
    case True
    from rs sp True obtain x pn' ca cn where
      c1: "child_at pn (i + 1) = Inr x" and c2: "set_child_at pn i x = Inr pn'"
      and x: "x = Some ca" and sc: "(s(p \<mapsto> pn')) ca = Some cn"
      and rs1: "remove_shift (s(p \<mapsto> pn', ca \<mapsto> cn\<lparr>idx := i\<rparr>)) p (i + 1) = Inr s'"
      by (subst (asm) remove_shift.simps) (auto split: sum.splits option.splits)
    from c2 have od': "outDegree pn' = outDegree pn"
      by (auto simp: set_child_at_def split: if_splits)
    obtain pn2 where p2: "(s(p \<mapsto> pn', ca \<mapsto> cn\<lparr>idx := i\<rparr>)) p = Some pn2"
      and od2: "outDegree pn2 = 0"
      using sc od od' by (cases "ca = p") auto
    from "1.IH" [OF sp True c1 c2 x sc rs1 p2 od2] have "i + 1 = - 1" .
    with c1 have "unat (- 1 :: uint) < unat (alloced pn)"
      by (auto simp: child_at_def split: if_splits)
    with unat_bound [of "alloced pn"] show ?thesis
      by (simp add: unat_minus1_uint)
  qed
qed

lemma remove_shift_last:
  assumes "s p = Some pn" and "\<not> i < outDegree pn - 1"
  shows "remove_shift s p i = Inr s"
  using assms by (subst remove_shift.simps) simp

lemma dg_Some [simp]: "s p = Some pn \<Longrightarrow> dg s p = unat (outDegree pn)"
  by (simp add: dg_def)

lemma dg_upd_other [simp]: "a \<noteq> p \<Longrightarrow> dg (s(a := x)) p = dg s p"
  by (simp add: dg_def)

lemma wfg_wf_heap': "wfg s p m j {} \<Longrightarrow> dg s p = m \<Longrightarrow> m \<le> j \<Longrightarrow> wf_heap s"
  by (auto intro: wfg_wf_heap)

lemma fill_hole_root:
  assumes w: "wfg s n (Suc m) j {}" and sn: "s n = Some nd" and m: "m = unat (outDegree nd)"
    and jm: "j \<le> m" and i: "unat i = j" and st: "s t = Some tn" and tr: "parent tn = None"
    and tn: "t \<noteq> n"
  shows "wf_heap (s(n \<mapsto> nd\<lparr>children := (children nd)[j := Some t],
                           outDegree := outDegree nd + 1\<rparr>,
                    t \<mapsto> tn\<lparr>parent := Some n, idx := i\<rparr>))"
proof -
  let ?nd = "nd\<lparr>children := (children nd)[j := Some t]\<rparr>"
  let ?tn = "tn\<lparr>parent := Some n, idx := i\<rparr>"
  let ?s1 = "s(n \<mapsto> ?nd, t \<mapsto> ?tn)"
  from wfg_len [OF w sn] have al: "Suc m \<le> unat (alloced nd)" by (simp add: deg_def)
  have inc: "unat (outDegree nd + 1) = Suc m"
    using al m unat_bound [of "alloced nd"] by (simp add: unat_word_ariths)
  have w1: "wfg ?s1 n (Suc m) (Suc m) {}"
    by (rule place_root [OF w sn _ st tr tn _ i]) (use jm in auto)
  have s1n: "?s1 n = Some ?nd" using tn by simp
  have w2: "wfg (?s1(n \<mapsto> ?nd\<lparr>outDegree := outDegree nd + 1\<rparr>)) n (Suc m) (Suc m) {}"
    by (rule wfg_set_outDegree [OF w1 s1n]) (use inc al in simp)
  have eq: "?s1(n \<mapsto> ?nd\<lparr>outDegree := outDegree nd + 1\<rparr>)
      = s(n \<mapsto> nd\<lparr>children := (children nd)[j := Some t], outDegree := outDegree nd + 1\<rparr>,
          t \<mapsto> ?tn)"
    using tn by (auto simp: fun_eq_iff)
  from w2 eq have "wfg (s(n \<mapsto> nd\<lparr>children := (children nd)[j := Some t],
                           outDegree := outDegree nd + 1\<rparr>,
                    t \<mapsto> tn\<lparr>parent := Some n, idx := i\<rparr>)) n (Suc m) (Suc m) {}" by simp
  then show ?thesis
    by (rule wfg_wf_heap') (use tn inc in \<open>simp_all add: dg_def\<close>)
qed

lemma grow_wf:
  assumes w: "wf_heap s" and g: "tree_children_grow_min_size rk n sz s = Inr (b, s1)"
  shows "wf_heap s1 \<and> (\<forall>a. a \<noteq> n \<longrightarrow> s1 a = s a)
         \<and> (\<exists>nd nd1. s n = Some nd \<and> s1 n = Some nd1 \<and> outDegree nd1 = outDegree nd
               \<and> parent nd1 = parent nd \<and> idx nd1 = idx nd)
         \<and> (\<not> b \<longrightarrow> s1 = s)"
proof -
  from g obtain nd where sn: "s n = Some nd"
    by (auto simp: tree_children_grow_min_size_def split: option.splits)
  show ?thesis
  proof (cases "sz \<le> alloced nd \<or> \<not> rk")
    case True
    with g sn have "s1 = s" by (auto simp: tree_children_grow_min_size_def split: if_splits)
    with w sn show ?thesis by auto
  next
    case False
    let ?nd = "nd\<lparr>children := take (unat sz) (children nd)
                 @ replicate (unat sz - length (children nd)) None, alloced := sz\<rparr>"
    from False g sn have s1: "s1 = s(n \<mapsto> ?nd)" "b"
      by (auto simp: tree_children_grow_min_size_def split: if_splits)
    from False have lt: "unat (alloced nd) < unat sz" by (simp add: word_le_nat_alt)
    have "wfg (s(n \<mapsto> ?nd)) n (dg s n) (dg s n) {}"
      by (rule wfg_grow [OF wf_heap_wfg [OF w] sn lt])
    then have "wf_heap (s(n \<mapsto> ?nd))"
      by (rule wfg_wf_heap') (use sn in \<open>simp_all add: dg_def\<close>)
    with s1 sn show ?thesis by auto
  qed
qed

lemma link_last_result:
  assumes l: "link_last n c s = Inr s2" and cn: "c \<noteq> n"
  obtains nd tn where "s n = Some nd" "s c = Some tn" "unat (outDegree nd) < unat (alloced nd)"
    "s2 = s(n \<mapsto> nd\<lparr>children := (children nd)[unat (outDegree nd) := Some c],
                       outDegree := outDegree nd + 1\<rparr>,
            c \<mapsto> tn\<lparr>parent := Some n, idx := outDegree nd\<rparr>)"
proof -
  from l obtain nd where sn: "s n = Some nd" by (auto simp: link_last_def split: option.splits)
  from l sn obtain nd1 where s1: "set_child_at nd (outDegree nd) (Some c) = Inr nd1"
    by (auto simp: link_last_def split: sum.splits)
  then have nd1: "nd1 = nd\<lparr>children := (children nd)[unat (outDegree nd) := Some c]\<rparr>"
    "unat (outDegree nd) < unat (alloced nd)"
    by (auto simp: set_child_at_def split: if_splits)
  from l sn s1 cn obtain tn where sc: "s c = Some tn"
    by (auto simp: link_last_def split: option.splits)
  from l sn s1 sc cn
  have "s2 = s(n \<mapsto> nd1, c \<mapsto> tn\<lparr>parent := Some n, idx := outDegree nd1\<rparr>,
               n \<mapsto> nd1\<lparr>outDegree := outDegree nd1 + 1\<rparr>)"
    by (simp add: link_last_def)
  also have "\<dots> = s(n \<mapsto> nd\<lparr>children := (children nd)[unat (outDegree nd) := Some c],
                       outDegree := outDegree nd + 1\<rparr>,
            c \<mapsto> tn\<lparr>parent := Some n, idx := outDegree nd\<rparr>)"
    using cn nd1 by (auto simp: fun_eq_iff)
  finally have "s2 = s(n \<mapsto> nd\<lparr>children := (children nd)[unat (outDegree nd) := Some c],
                       outDegree := outDegree nd + 1\<rparr>,
            c \<mapsto> tn\<lparr>parent := Some n, idx := outDegree nd\<rparr>)" .
  with sn sc nd1 that show thesis by blast
qed

lemma link_last_wf:
  assumes w: "wf_heap s" and l: "link_last n c s = Inr s2" and cn: "c \<noteq> n"
    and cr: "\<And>tn. s c = Some tn \<Longrightarrow> parent tn = None"
  shows "wf_heap s2"
proof -
  from link_last_result [OF l cn] obtain nd tn where
    x: "s n = Some nd" "s c = Some tn" "unat (outDegree nd) < unat (alloced nd)"
    "s2 = s(n \<mapsto> nd\<lparr>children := (children nd)[unat (outDegree nd) := Some c],
                       outDegree := outDegree nd + 1\<rparr>,
            c \<mapsto> tn\<lparr>parent := Some n, idx := outDegree nd\<rparr>)" by blast
  let ?m = "unat (outDegree nd)"
  from wf_heap_wfg [OF w, of n] x(1) have w0: "wfg s n ?m ?m {}" by simp
  have w1: "wfg s n (Suc ?m) ?m {}"
    by (rule wfg_extend [OF w0 _ x(1)]) (use x(3) in auto)
  show ?thesis
    unfolding x(4)
    by (rule fill_hole_root [OF w1 x(1) refl _ refl x(2) cr [OF x(2)] cn]) simp
qed

lemma link_last_self:
  assumes "link_last n n s = Inr s2"
  shows "\<exists>nd. s2 n = Some nd \<and> parent nd = Some n"
  using assms by (auto simp: link_last_def split: option.splits sum.splits)

lemma tree_update_height_wf:
  assumes "wf_heap s" and "tree_update_height n s = Some (Inr s')"
  shows "wf_heap s'"
proof -
  from tree_update_height_result [OF assms(2)] have h: "hgt_only s s'" by simp
  have "wfg s' 0 (dg s 0) (dg s 0) {}"
    by (rule wfg_hgt_only [OF wf_heap_wfg [OF assms(1)] h])
  moreover have "dg s' 0 = dg s 0"
    using h unfolding hgt_only_def dg_def by (auto dest!: spec [of _ 0] split: option.splits)
  ultimately show ?thesis by (auto intro: wfg_wf_heap')
qed

lemma tree_update_height_not_self:
  assumes "tree_update_height (Some n) s = Some (Inr s')" and "s n = Some nd"
  shows "parent nd \<noteq> Some n"
  using tree_update_height_result [OF assms(1)] no_chain_self_parent [of s "Some n" n nd] assms(2)
  by auto

lemma remove_child_counted:
  assumes w: "wf_heap s" and sc: "s c = Some cn" and cp: "parent cn = Some p"
    and sp: "s p = Some pn" and r: "tree_node_remove_child c s = Inr s1"
    and up: "children pn ! unat (idx cn) = Some c" "unat (idx cn) < unat (outDegree pn)"
  shows "\<exists>pn1. s1 p = Some pn1 \<and> outDegree pn1 = outDegree pn - 1 \<and> 0 < unat (outDegree pn)
           \<and> c \<noteq> p
           \<and> wfg s1 p (unat (outDegree pn) - 1) (unat (outDegree pn) - 1) {c}
           \<and> (\<forall>k<unat (idx cn). children pn1 ! k = children pn ! k)
           \<and> (\<forall>k. unat (idx cn) \<le> k \<and> k < unat (outDegree pn) - 1
                  \<longrightarrow> children pn1 ! k = children pn ! Suc k)"
proof -
  let ?m = "unat (outDegree pn)"
  let ?j = "unat (idx cn)"
  from wf_heap_wfg [OF w, of p] sp have w0: "wfg s p ?m ?m {}" by simp
  from wfg_root [OF w0 sc] cp have cnp: "c \<noteq> p" by auto
  from wfg_len [OF w0 sp] have len: "length (children pn) = unat (alloced pn)"
    "?m \<le> unat (alloced pn)" by (auto simp: deg_def)
  have nc: "\<forall>k. unat (0 :: uint) \<le> k \<and> k < ?j \<longrightarrow> children pn ! k \<noteq> Some c"
  proof (intro allI impI)
    fix k assume k: "unat (0 :: uint) \<le> k \<and> k < ?j"
    with up have "k < deg p ?m p pn" by (simp add: deg_def)
    from wfg_down [OF w0 sp this] k up obtain c' cn' where
      "children pn ! k = Some c'" "s c' = Some cn'" "unat (idx cn') = k" by auto
    with sc k show "children pn ! k \<noteq> Some c" by auto
  qed
  have fc: "find_child pn c 0 = Inr (idx cn)"
    by (rule find_child_at [OF up(2) len(2) len(1) up(1) nc]) simp
  let ?pn1 = "pn\<lparr>children := (children pn)[?j := None]\<rparr>"
  have sc1: "set_child_at pn (idx cn) None = Inr ?pn1"
    using up len by (simp add: set_child_at_def)
  from r sc cp sp fc sc1 obtain s1' pn2 where
    rs: "remove_shift (s(p \<mapsto> ?pn1)) p (idx cn) = Inr s1'" and p2: "s1' p = Some pn2"
    and s1: "s1 = s1'(p \<mapsto> pn2\<lparr>outDegree := outDegree pn2 - 1\<rparr>)"
    by (auto simp: tree_node_remove_child_def split: sum.splits option.splits)
  have w1: "wfg (s(p \<mapsto> ?pn1)) p ?m ?j {c}"
    using detach_hole [OF w0 _ sp sc cp _ refl, of None] by simp
  from remove_shift_wfg [OF w1 _ _ up(2) refl rs, of ?pn1] p2
  have w2: "wfg s1' p ?m (?m - 1) {c}" and od2: "outDegree pn2 = outDegree pn"
    and al2: "alloced pn2 = alloced pn"
    and a: "\<forall>k<?j. children pn2 ! k = children ?pn1 ! k"
    and b: "\<forall>k. ?j \<le> k \<and> k < ?m - 1 \<longrightarrow> children pn2 ! k = children ?pn1 ! Suc k"
    by auto
  from up have od0: "outDegree pn \<noteq> 0" by auto
  then have um: "unat (outDegree pn - 1) = ?m - 1" by (simp add: unat_minus_one)
  have w3: "wfg s1 p ?m (?m - 1) {c}"
    unfolding s1 by (rule wfg_set_outDegree [OF w2 p2]) (use od2 al2 um len in simp)
  from up have "?m = Suc (?m - 1)" by simp
  with w3 have "wfg s1 p (Suc (?m - 1)) (?m - 1) {c}" by simp
  then have w4: "wfg s1 p (?m - 1) (?m - 1) {c}" by (rule wfg_shrink)
  have a': "\<forall>k<?j. children pn2 ! k = children pn ! k" using a by simp
  have b': "\<forall>k. ?j \<le> k \<and> k < ?m - 1 \<longrightarrow> children pn2 ! k = children pn ! Suc k"
    using b by simp
  from s1 od2 up cnp w4 a' b' show ?thesis by simp
qed

text \<open>
  \<open>tree_node_remove_child\<close> on a node \<open>c\<close> that is in no cell of the node \<open>p\<close> its
  \<open>parent\<close> field names (the parent of \<open>c\<close> was freed and the block is in use again): the
  search ends at \<open>outDegree\<close>, nothing is moved, and \<open>p\<close> loses its last child. With
  \<open>outDegree = 0\<close> the bound \<open>outDegree - 1\<close> of the shifting loop wraps and the loop runs
  out of the array.
\<close>

lemma remove_child_uncounted:
  assumes w: "wf_heap s" and sc: "s c = Some cn" and cp: "parent cn = Some p"
    and sp: "s p = Some pn" and r: "tree_node_remove_child c s = Inr s1"
    and un: "\<forall>k<unat (outDegree pn). children pn ! k \<noteq> Some c"
  shows "\<exists>pn1. s1 p = Some pn1 \<and> outDegree pn1 = outDegree pn - 1 \<and> 0 < unat (outDegree pn)
           \<and> c \<noteq> p
           \<and> wfg s1 p (unat (outDegree pn) - 1) (unat (outDegree pn) - 1) {c}"
proof -
  let ?m = "unat (outDegree pn)"
  from wf_heap_wfg [OF w, of p] sp have w0: "wfg s p ?m ?m {}" by simp
  from wfg_root [OF w0 sc] cp have cnp: "c \<noteq> p" by auto
  from wfg_len [OF w0 sp] have len: "length (children pn) = unat (alloced pn)"
    "?m \<le> unat (alloced pn)" by (auto simp: deg_def)
  have fc: "find_child pn c 0 = Inr (outDegree pn)"
    by (rule find_child_none [OF len(2,1)]) (use un in simp_all)
  have al: "?m < unat (alloced pn)"
  proof (rule ccontr)
    assume "\<not> ?m < unat (alloced pn)"
    then have "set_child_at pn (outDegree pn) None = Inl MemFault"
      by (simp add: set_child_at_def)
    with r sc cp sp fc show False by (simp add: tree_node_remove_child_def)
  qed
  let ?pn1 = "pn\<lparr>children := (children pn)[?m := None]\<rparr>"
  have sc1: "set_child_at pn (outDegree pn) None = Inr ?pn1"
    using al len by (simp add: set_child_at_def)
  from r sc cp sp fc sc1 obtain s1' pn2 where
    rs: "remove_shift (s(p \<mapsto> ?pn1)) p (outDegree pn) = Inr s1'" and p2: "s1' p = Some pn2"
    and s1: "s1 = s1'(p \<mapsto> pn2\<lparr>outDegree := outDegree pn2 - 1\<rparr>)"
    by (auto simp: tree_node_remove_child_def split: sum.splits option.splits)
  have od0: "outDegree pn \<noteq> 0"
  proof
    assume z: "outDegree pn = 0"
    from remove_shift_degree_zero [OF rs, of ?pn1] z have "outDegree pn = - 1" by simp
    with z show False by simp
  qed
  then have um: "unat (outDegree pn - 1) = ?m - 1" by (simp add: unat_minus_one)
  from od0 have pos: "0 < ?m" by (simp add: unat_gt_0)
  with um have "\<not> outDegree pn < outDegree ?pn1 - 1" by (simp add: word_less_nat_alt)
  from remove_shift_last [of "s(p \<mapsto> ?pn1)" p ?pn1, OF _ this] rs
  have s1': "s1' = s(p \<mapsto> ?pn1)" by simp
  with p2 have pn2: "pn2 = ?pn1" by simp
  have nc: "children nd ! k \<noteq> Some c"
    if "s a = Some nd" "k < deg p ?m a nd" for a nd k
  proof (cases "a = p")
    case True
    with that sp un show ?thesis by (simp add: deg_def)
  next
    case False
    from wfg_down [OF w0 that] False obtain c' cn' where
      "children nd ! k = Some c'" "s c' = Some cn'" "parent cn' = Some a" by auto
    with sc cp False show ?thesis by auto
  qed
  have w1: "wfg s p ?m ?m {c}"
    by (rule wfg_exempt [OF w0]) (rule nc)
  from wfg_write_hole [OF w1 sp, of None]
  have w2: "wfg (s(p \<mapsto> ?pn1)) p ?m ?m {c}" .
  have w3: "wfg s1 p ?m ?m {c}"
    unfolding s1 s1' pn2 using wfg_set_outDegree [OF w2, of ?pn1 "outDegree pn - 1"] um len
    by simp
  from pos have "?m = Suc (?m - 1)" by simp
  with w3 have "wfg s1 p (Suc (?m - 1)) ?m {c}" by simp
  then have w4: "wfg s1 p (?m - 1) (?m - 1) {c}" by (rule wfg_drop_last) simp
  from s1 s1' pn2 pos cnp w4 show ?thesis by simp
qed

lemma remove_child_wfg:
  assumes w: "wf_heap s" and sc: "s c = Some cn" and cp: "parent cn = Some p"
    and sp: "s p = Some pn" and r: "tree_node_remove_child c s = Inr s1"
  shows "\<exists>pn1. s1 p = Some pn1 \<and> outDegree pn1 = outDegree pn - 1 \<and> 0 < unat (outDegree pn)
           \<and> c \<noteq> p
           \<and> wfg s1 p (unat (outDegree pn) - 1) (unat (outDegree pn) - 1) {c}"
proof (cases "\<forall>k<unat (outDegree pn). children pn ! k \<noteq> Some c")
  case True
  from remove_child_uncounted [OF w sc cp sp r True] show ?thesis .
next
  case False
  then obtain k where k: "k < unat (outDegree pn)" "children pn ! k = Some c" by blast
  from wf_heap_node(3) [OF w sp k(1)] k(2) sc have "unat (idx cn) = k" by auto
  with k have "children pn ! unat (idx cn) = Some c" "unat (idx cn) < unat (outDegree pn)"
    by simp_all
  from remove_child_counted [OF w sc cp sp r this] show ?thesis by blast
qed

lemma opt_caseD:
  "(case x of None \<Rightarrow> Some (Inl MemFault) | Some v \<Rightarrow> f v) = Some (Inr y)
   \<Longrightarrow> \<exists>v. x = Some v \<and> f v = Some (Inr y)"
  by (cases x) auto

lemma sum_caseD:
  "(case x of Inl e \<Rightarrow> Some (Inl e) | Inr v \<Rightarrow> f v) = Some (Inr y)
   \<Longrightarrow> \<exists>v. x = Inr v \<and> f v = Some (Inr y)"
  by (cases x) auto

lemma part_caseD:
  "(case x of None \<Rightarrow> None | Some (Inl e) \<Rightarrow> Some (Inl e) | Some (Inr v) \<Rightarrow> f v) = Some (Inr y)
   \<Longrightarrow> \<exists>v. x = Some (Inr v) \<and> f v = Some (Inr y)"
  by (auto split: option.splits sum.splits)

lemma tree_remove_nonroot:
  assumes r: "tree_remove n s = Some (Inr (r, s'))" and sn: "s n = Some nd"
    and pn: "parent nd = Some p"
  obtains s1 nd1 s2 nd2 where "tree_node_remove_child n s = Inr s1" "s1 n = Some nd1"
    "tree_update_height (parent nd1) s1 = Some (Inr s2)" "s2 n = Some nd2"
    "s' = s2(n \<mapsto> nd2\<lparr>parent := None, idx := 0\<rparr>)" "r = n"
proof -
  from r sn pn have "(case tree_node_remove_child n s of Inl e \<Rightarrow> Some (Inl e)
                | Inr s1 \<Rightarrow> (case s1 n of None \<Rightarrow> Some (Inl MemFault)
                    | Some nd1 \<Rightarrow> (case tree_update_height (parent nd1) s1 of None \<Rightarrow> None
                        | Some (Inl e) \<Rightarrow> Some (Inl e)
                        | Some (Inr s2) \<Rightarrow> (case s2 n of None \<Rightarrow> Some (Inl MemFault)
                            | Some nd2 \<Rightarrow>
                                Some (Inr (n, s2(n \<mapsto> nd2\<lparr>parent := None, idx := 0\<rparr>)))))))
      = Some (Inr (r, s'))"
    by (simp add: tree_remove_def)
  from sum_caseD [OF this] obtain s1 where 1: "tree_node_remove_child n s = Inr s1"
    and "(case s1 n of None \<Rightarrow> Some (Inl MemFault)
                    | Some nd1 \<Rightarrow> (case tree_update_height (parent nd1) s1 of None \<Rightarrow> None
                        | Some (Inl e) \<Rightarrow> Some (Inl e)
                        | Some (Inr s2) \<Rightarrow> (case s2 n of None \<Rightarrow> Some (Inl MemFault)
                            | Some nd2 \<Rightarrow>
                                Some (Inr (n, s2(n \<mapsto> nd2\<lparr>parent := None, idx := 0\<rparr>))))))
      = Some (Inr (r, s'))" by blast
  from opt_caseD [OF this(2)] obtain nd1 where 2: "s1 n = Some nd1"
    and "(case tree_update_height (parent nd1) s1 of None \<Rightarrow> None
                        | Some (Inl e) \<Rightarrow> Some (Inl e)
                        | Some (Inr s2) \<Rightarrow> (case s2 n of None \<Rightarrow> Some (Inl MemFault)
                            | Some nd2 \<Rightarrow>
                                Some (Inr (n, s2(n \<mapsto> nd2\<lparr>parent := None, idx := 0\<rparr>)))))
      = Some (Inr (r, s'))" by blast
  from part_caseD [OF this(2)] obtain s2 where 3: "tree_update_height (parent nd1) s1 = Some (Inr s2)"
    and "(case s2 n of None \<Rightarrow> Some (Inl MemFault)
                            | Some nd2 \<Rightarrow>
                                Some (Inr (n, s2(n \<mapsto> nd2\<lparr>parent := None, idx := 0\<rparr>))))
      = Some (Inr (r, s'))" by blast
  from opt_caseD [OF this(2)] obtain nd2 where 4: "s2 n = Some nd2"
    and 5: "Some (Inr (n, s2(n \<mapsto> nd2\<lparr>parent := None, idx := 0\<rparr>))) = Some (Inr (r, s'))"
    by blast
  from 5 have 6: "s' = s2(n \<mapsto> nd2\<lparr>parent := None, idx := 0\<rparr>)" and 7: "r = n" by auto
  show thesis by (rule that [OF 1 2 3 4 6 7])
qed

lemma tree_remove_root:
  "s n = Some nd \<Longrightarrow> parent nd = None \<Longrightarrow> tree_remove n s = Some (Inr (n, s))"
  by (simp add: tree_remove_def)

lemma tree_remove_wf:
  assumes w: "wf_heap s" and r: "tree_remove n s = Some (Inr (r, s'))"
  shows "wf_heap s' \<and> r = n \<and> (\<exists>nd'. s' n = Some nd' \<and> parent nd' = None)"
proof -
  from r obtain nd where sn: "s n = Some nd"
    by (auto simp: tree_remove_def split: option.splits)
  show ?thesis
  proof (cases "parent nd")
    case None
    with r sn w show ?thesis by (auto simp: tree_remove_def)
  next
    case (Some p)
    from tree_remove_nonroot [OF r sn Some] obtain s1 nd1 s2 nd2 where
      rc: "tree_node_remove_child n s = Inr s1" and n1: "s1 n = Some nd1"
      and uh: "tree_update_height (parent nd1) s1 = Some (Inr s2)" and n2: "s2 n = Some nd2"
      and s': "s' = s2(n \<mapsto> nd2\<lparr>parent := None, idx := 0\<rparr>)" and rn: "r = n"
      by blast
    from rc sn Some obtain pn where sp: "s p = Some pn"
      by (auto simp: tree_node_remove_child_def split: option.splits)
    let ?m = "unat (outDegree pn) - 1"
    from remove_child_wfg [OF w sn Some sp rc] obtain pn1 where
      x: "s1 p = Some pn1" "outDegree pn1 = outDegree pn - 1" "0 < unat (outDegree pn)"
         "n \<noteq> p" "wfg s1 p ?m ?m {n}" by blast
    from tree_update_height_result [OF uh] have h: "hgt_only s1 s2" by simp
    from wfg_hgt_only [OF x(5) h] have w2: "wfg s2 p ?m ?m {n}" .
    from unexempt [OF w2 n2] s' have w3: "wfg s' p ?m ?m {}" by simp
    from h x(1) obtain hv where "s2 p = Some (pn1\<lparr>hgt := hv\<rparr>)"
      unfolding hgt_only_def by (auto dest!: spec [of _ p])
    with s' x have "dg s' p = ?m" by (simp add: dg_def unat_minus_one unat_gt_0)
    with w3 have "wf_heap s'" by (auto intro: wfg_wf_heap')
    with s' rn show ?thesis by simp
  qed
qed

lemma tree_alloc_wf:
  assumes w: "wf_heap s" and f: "s a = None"
  shows "wf_heap (snd (tree_alloc (Some a) d s))"
proof -
  have "wfg (s(a \<mapsto> \<lparr>parent = None, children = [], outDegree = 0, data = d,
                         alloced = 0, idx = 0, hgt = 0\<rparr>)) (Suc a) (dg s (Suc a)) (dg s (Suc a)) {}"
    by (rule wfg_alloc [OF wf_heap_wfg [OF w] f]) simp
  then show ?thesis
    unfolding tree_alloc_def by (auto intro!: wfg_wf_heap' simp: dg_def)
qed

lemma tree_free_root_wf:
  assumes w: "wf_heap s" and sr: "s r = Some rn" and rr: "parent rn = None"
  shows "wf_heap (s(r := None))"
proof -
  have "wfg (s(r := None)) (Suc r) (dg s (Suc r)) (dg s (Suc r)) {}"
    by (rule free_root [OF wf_heap_wfg [OF w] sr rr]) simp
  then show ?thesis by (auto intro!: wfg_wf_heap' simp: dg_def)
qed

lemma tree_delete_wf:
  assumes w: "wf_heap s" and r: "tree_delete n s = Some (Inr s')"
  shows "wf_heap s'"
proof -
  from r obtain x s1 where tr: "tree_remove n s = Some (Inr (x, s1))"
    and f: "tree_free (Some x) s1 = Inr s'"
    by (auto simp: tree_delete_def split: option.splits sum.splits)
  from tree_remove_wf [OF w tr] obtain nd' where
    y: "wf_heap s1" "x = n" "s1 n = Some nd'" "parent nd' = None" by blast
  from f y have "s' = s1(n := None)" by (simp add: tree_free_def)
  with tree_free_root_wf [OF y(1) y(3) y(4)] show ?thesis by simp
qed

lemma prod_caseD:
  "(case x of (b, v) \<Rightarrow> f b v) = Some (Inr y) \<Longrightarrow> \<exists>b v. x = (b, v) \<and> f b v = Some (Inr y)"
  by (cases x) auto

lemma sumE_caseD:
  "(case x of Inl e \<Rightarrow> Inl e | Inr v \<Rightarrow> f v) = Inr y \<Longrightarrow> \<exists>v. x = Inr v \<and> f v = Inr y"
  by (cases x) auto

lemma optE_caseD:
  "(case x of None \<Rightarrow> Inl MemFault | Some v \<Rightarrow> f v) = Inr y \<Longrightarrow> \<exists>v. x = Some v \<and> f v = Inr y"
  by (cases x) auto

lemma tree_add_subtree_cases:
  assumes r: "tree_add_subtree rk n t s = Some (Inr (r, s'))"
  shows "(t = None \<and> s' = s) \<or> (\<exists>ta tn. t = Some ta \<and> s ta = Some tn \<and> parent tn \<noteq> None \<and> s' = s)
       \<or> (\<exists>ta tn nd b s1. t = Some ta \<and> s ta = Some tn \<and> parent tn = None \<and> s n = Some nd
             \<and> tree_children_grow_min_size rk n (outDegree nd + 1) s = Inr (b, s1)
             \<and> (if \<not> b then s' = s1 \<and> r = t
                 else \<exists>s2. link_last n ta s1 = Inr s2
                        \<and> tree_update_height (Some n) s2 = Some (Inr s') \<and> r = None))"
proof (cases t)
  case None
  with r show ?thesis by (simp add: tree_add_subtree_def)
next
  case (Some ta)
  with r obtain tn where tn: "s ta = Some tn"
    by (auto simp: tree_add_subtree_def split: option.splits)
  show ?thesis
  proof (cases "parent tn")
    case (Some q)
    with r tn \<open>t = Some ta\<close> show ?thesis by (simp add: tree_add_subtree_def)
  next
    case None
    note rm = tree_remove_root [of s ta tn, OF tn None]
    from r tn None \<open>t = Some ta\<close> rm
    have 1: "(case s n of None \<Rightarrow> Some (Inl MemFault)
        | Some nd \<Rightarrow>
            (case tree_children_grow_min_size rk n (outDegree nd + 1) s of
               Inl e \<Rightarrow> Some (Inl e)
             | Inr (ok, s1) \<Rightarrow>
                 if \<not> ok then Some (Inr (Some ta, s1))
                 else (case link_last n ta s1 of Inl e \<Rightarrow> Some (Inl e)
                       | Inr s2 \<Rightarrow> (case tree_update_height (Some n) s2 of
                             None \<Rightarrow> None
                           | Some (Inl e) \<Rightarrow> Some (Inl e)
                           | Some (Inr s3) \<Rightarrow> Some (Inr (None, s3)))))) = Some (Inr (r, s'))"
      by (simp add: tree_add_subtree_def)
    from opt_caseD [OF 1] obtain nd where nd: "s n = Some nd"
      and 2: "(case tree_children_grow_min_size rk n (outDegree nd + 1) s of
               Inl e \<Rightarrow> Some (Inl e)
             | Inr (ok, s1) \<Rightarrow>
                 if \<not> ok then Some (Inr (Some ta, s1))
                 else (case link_last n ta s1 of Inl e \<Rightarrow> Some (Inl e)
                       | Inr s2 \<Rightarrow> (case tree_update_height (Some n) s2 of
                             None \<Rightarrow> None
                           | Some (Inl e) \<Rightarrow> Some (Inl e)
                           | Some (Inr s3) \<Rightarrow> Some (Inr (None, s3))))) = Some (Inr (r, s'))"
      by blast
    from sum_caseD [OF 2] obtain g where g: "tree_children_grow_min_size rk n (outDegree nd + 1) s = Inr g"
      and 3: "(case g of (ok, s1) \<Rightarrow>
                 if \<not> ok then Some (Inr (Some ta, s1))
                 else (case link_last n ta s1 of Inl e \<Rightarrow> Some (Inl e)
                       | Inr s2 \<Rightarrow> (case tree_update_height (Some n) s2 of
                             None \<Rightarrow> None
                           | Some (Inl e) \<Rightarrow> Some (Inl e)
                           | Some (Inr s3) \<Rightarrow> Some (Inr (None, s3))))) = Some (Inr (r, s'))"
      by blast
    obtain b s1 where gb: "g = (b, s1)" by (cases g)
    show ?thesis
    proof (cases b)
      case False
      with 3 gb \<open>t = Some ta\<close> have "s' = s1" "r = t" by auto
      with False g gb nd tn None \<open>t = Some ta\<close> show ?thesis by auto
    next
      case True
      with 3 gb have 4: "(case link_last n ta s1 of Inl e \<Rightarrow> Some (Inl e)
                       | Inr s2 \<Rightarrow> (case tree_update_height (Some n) s2 of
                             None \<Rightarrow> None
                           | Some (Inl e) \<Rightarrow> Some (Inl e)
                           | Some (Inr s3) \<Rightarrow> Some (Inr (None, s3)))) = Some (Inr (r, s'))"
        by simp
      from sum_caseD [OF 4] obtain s2 where l: "link_last n ta s1 = Inr s2"
        and 5: "(case tree_update_height (Some n) s2 of
                             None \<Rightarrow> None
                           | Some (Inl e) \<Rightarrow> Some (Inl e)
                           | Some (Inr s3) \<Rightarrow> Some (Inr (None, s3))) = Some (Inr (r, s'))"
        by blast
      from part_caseD [OF 5] obtain s3 where u: "tree_update_height (Some n) s2 = Some (Inr s3)"
        and 6: "Some (Inr (None, s3)) = Some (Inr (r, s'))" by blast
      from 6 have "s3 = s'" "r = None" by auto
      with True g gb nd tn None \<open>t = Some ta\<close> l u show ?thesis by auto
    qed
  qed
qed

lemma attach_tail_wf:
  assumes w: "wf_heap s1" and tr: "\<And>tn. s1 ta = Some tn \<Longrightarrow> parent tn = None"
    and l: "link_last n ta s1 = Inr s2" and u: "tree_update_height (Some n) s2 = Some (Inr s')"
  shows "wf_heap s'"
proof (cases "ta = n")
  case True
  with link_last_self [of n s1 s2] l obtain nd where "s2 n = Some nd" "parent nd = Some n" by auto
  with tree_update_height_not_self [OF u] show ?thesis by auto
next
  case False
  from link_last_wf [OF w l False tr] have "wf_heap s2" by simp
  from this u show ?thesis by (rule tree_update_height_wf)
qed

lemma tree_add_subtree_wf:
  assumes w: "wf_heap s" and r: "tree_add_subtree rk n t s = Some (Inr (r, s'))"
  shows "wf_heap s'"
proof -
  from tree_add_subtree_cases [OF r]
  consider (a) "s' = s"
    | (b) ta tn nd b s1 where "t = Some ta" "s ta = Some tn" "parent tn = None" "s n = Some nd"
            "tree_children_grow_min_size rk n (outDegree nd + 1) s = Inr (b, s1)"
            "if \<not> b then s' = s1 \<and> r = t
                 else \<exists>s2. link_last n ta s1 = Inr s2
                        \<and> tree_update_height (Some n) s2 = Some (Inr s') \<and> r = None"
    by blast
  then show ?thesis
  proof cases
    case a
    with w show ?thesis by simp
  next
    case b
    from grow_wf [OF w b(5)] have g: "wf_heap s1" "\<forall>a. a \<noteq> n \<longrightarrow> s1 a = s a"
      "\<exists>nd nd1. s n = Some nd \<and> s1 n = Some nd1 \<and> parent nd1 = parent nd" by auto
    show ?thesis
    proof (cases b)
      case False
      with b(6) g show ?thesis by simp
    next
      case True
      with b(6) obtain s2 where l: "link_last n ta s1 = Inr s2"
        and u: "tree_update_height (Some n) s2 = Some (Inr s')" by auto
      have tr: "\<And>x. s1 ta = Some x \<Longrightarrow> parent x = None"
        using g(2,3) b(2,3) by (cases "ta = n") auto
      from attach_tail_wf [OF g(1) tr l u] show ?thesis .
    qed
  qed
qed

lemma grow_false: "tree_children_grow_min_size rk n sz s = Inr (False, s1) \<Longrightarrow> s1 = s"
  by (auto simp: tree_children_grow_min_size_def split: option.splits if_splits)

text \<open>
  With \<open>i = 0\<close> the loop test \<open>a >= i\<close> of \<open>tree_insert_subtree\<close> is always true, so the
  loop only stops by reading the child array out of bounds, whatever the heap is.
\<close>

lemma error_is_MemFault: "(e :: error) = MemFault"
  by (cases e) simp

lemma insert_shift_zero: "insert_shift s n 0 a = Inl MemFault"
proof (induction s n "0 :: uint" a rule: insert_shift.induct)
  case (1 s n a)
  show ?case
    apply (subst insert_shift.simps)
    apply (simp add: error_is_MemFault split: option.splits sum.splits
             del: fun_upd_apply fun_upd_upd)
    apply (intro allI impI conjI)
    apply (rule 1; (simp del: fun_upd_apply fun_upd_upd)?)
    done
qed

lemma insert_shift_parents:
  assumes "insert_shift s n i a = Inr s'" and "s b = Some bn"
  shows "\<exists>bn'. s' b = Some bn' \<and> parent bn' = parent bn"
  using assms
proof (induction s n i a arbitrary: bn rule: insert_shift.induct)
  case (1 s n i a)
  show ?case
  proof (cases "i \<le> a")
    case False
    with 1(2,3) show ?thesis by (subst (asm) insert_shift.simps) simp
  next
    case True
    with 1(2) have e: "(case s n of None \<Rightarrow> Inl MemFault
            | Some nd \<Rightarrow> (case child_at nd a of Inl e \<Rightarrow> Inl e
                | Inr x \<Rightarrow> (case set_child_at nd (a + 1) x of Inl e \<Rightarrow> Inl e
                    | Inr nd' \<Rightarrow> (case x of None \<Rightarrow> Inl MemFault
                        | Some ca \<Rightarrow> (case (s(n \<mapsto> nd')) ca of None \<Rightarrow> Inl MemFault
                            | Some cn \<Rightarrow>
                                insert_shift (s(n \<mapsto> nd', ca \<mapsto> cn\<lparr>idx := a + 1\<rparr>)) n i (a - 1)))))) = Inr s'"
      by (subst (asm) insert_shift.simps) simp
    from optE_caseD [OF e] obtain nd where nd: "s n = Some nd"
      and e1: "(case child_at nd a of Inl e \<Rightarrow> Inl e
                | Inr x \<Rightarrow> (case set_child_at nd (a + 1) x of Inl e \<Rightarrow> Inl e
                    | Inr nd' \<Rightarrow> (case x of None \<Rightarrow> Inl MemFault
                        | Some ca \<Rightarrow> (case (s(n \<mapsto> nd')) ca of None \<Rightarrow> Inl MemFault
                            | Some cn \<Rightarrow>
                                insert_shift (s(n \<mapsto> nd', ca \<mapsto> cn\<lparr>idx := a + 1\<rparr>)) n i (a - 1))))) = Inr s'"
      by blast
    from sumE_caseD [OF e1] obtain x where x: "child_at nd a = Inr x"
      and e2: "(case set_child_at nd (a + 1) x of Inl e \<Rightarrow> Inl e
                    | Inr nd' \<Rightarrow> (case x of None \<Rightarrow> Inl MemFault
                        | Some ca \<Rightarrow> (case (s(n \<mapsto> nd')) ca of None \<Rightarrow> Inl MemFault
                            | Some cn \<Rightarrow>
                                insert_shift (s(n \<mapsto> nd', ca \<mapsto> cn\<lparr>idx := a + 1\<rparr>)) n i (a - 1)))) = Inr s'"
      by blast
    from sumE_caseD [OF e2] obtain nd' where nd': "set_child_at nd (a + 1) x = Inr nd'"
      and e3: "(case x of None \<Rightarrow> Inl MemFault
                        | Some ca \<Rightarrow> (case (s(n \<mapsto> nd')) ca of None \<Rightarrow> Inl MemFault
                            | Some cn \<Rightarrow>
                                insert_shift (s(n \<mapsto> nd', ca \<mapsto> cn\<lparr>idx := a + 1\<rparr>)) n i (a - 1))) = Inr s'"
      by blast
    from optE_caseD [OF e3] obtain ca where ca: "x = Some ca"
      and e4: "(case (s(n \<mapsto> nd')) ca of None \<Rightarrow> Inl MemFault
                            | Some cn \<Rightarrow>
                                insert_shift (s(n \<mapsto> nd', ca \<mapsto> cn\<lparr>idx := a + 1\<rparr>)) n i (a - 1)) = Inr s'"
      by blast
    from optE_caseD [OF e4] obtain cn where cn: "(s(n \<mapsto> nd')) ca = Some cn"
      and e5: "insert_shift (s(n \<mapsto> nd', ca \<mapsto> cn\<lparr>idx := a + 1\<rparr>)) n i (a - 1) = Inr s'"
      by blast
    from nd' have pp: "parent nd' = parent nd"
      by (auto simp: set_child_at_def split: if_splits)
    have "\<exists>y. (s(n \<mapsto> nd', ca \<mapsto> cn\<lparr>idx := a + 1\<rparr>)) b = Some y \<and> parent y = parent bn"
      using 1(3) nd cn pp by (auto split: if_splits)
    then obtain y where y: "(s(n \<mapsto> nd', ca \<mapsto> cn\<lparr>idx := a + 1\<rparr>)) b = Some y"
      "parent y = parent bn" by blast
    from "1.IH" [OF True nd x nd' ca cn e5 y(1)] y(2) show ?thesis by simp
  qed
qed

lemma insert_room:
  assumes sn: "s n = Some nd" and le: "i \<le> outDegree nd" and i0: "i \<noteq> 0"
    and sh: "insert_shift s n i (outDegree nd - 1) = Inr s2" and l: "link_at n t i s2 = Inr s3"
  shows "unat (outDegree nd) < unat (alloced nd)"
proof (cases "i \<le> outDegree nd - 1")
  case True
  from le i0 have od0: "outDegree nd \<noteq> 0" by auto
  from True sh sn obtain x nd' where "set_child_at nd (outDegree nd - 1 + 1) x = Inr nd'"
    by (subst (asm) insert_shift.simps) (auto split: sum.splits)
  then show ?thesis by (auto simp: set_child_at_def split: if_splits)
next
  case False
  with sh have s2: "s2 = s" by (subst (asm) insert_shift.simps) simp
  from le i0 have od0: "outDegree nd \<noteq> 0" by auto
  from False have "unat (outDegree nd - 1) < unat i" by (simp add: word_le_nat_alt)
  with od0 le have "unat i = unat (outDegree nd)"
    by (simp add: unat_minus_one word_le_nat_alt)
  moreover from l s2 sn obtain nd1 where "set_child_at nd i (Some t) = Inr nd1"
    by (auto simp: link_at_def split: sum.splits)
  ultimately show ?thesis by (auto simp: set_child_at_def split: if_splits)
qed

lemma link_at_result:
  assumes l: "link_at n t i s = Inr s3" and tn: "t \<noteq> n"
  obtains nd tnd where "s n = Some nd" "s t = Some tnd" "unat i < unat (alloced nd)"
    "s3 = s(n \<mapsto> nd\<lparr>children := (children nd)[unat i := Some t],
                       outDegree := outDegree nd + 1\<rparr>,
            t \<mapsto> tnd\<lparr>parent := Some n, idx := i\<rparr>)"
proof -
  from l obtain nd where sn: "s n = Some nd" by (auto simp: link_at_def split: option.splits)
  from l sn obtain nd1 where s1: "set_child_at nd i (Some t) = Inr nd1"
    by (auto simp: link_at_def split: sum.splits)
  then have nd1: "nd1 = nd\<lparr>children := (children nd)[unat i := Some t]\<rparr>"
    "unat i < unat (alloced nd)"
    by (auto simp: set_child_at_def split: if_splits)
  from l sn s1 tn obtain tnd where st: "s t = Some tnd"
    by (auto simp: link_at_def split: option.splits)
  from l sn s1 st tn
  have "s3 = s(n \<mapsto> nd1\<lparr>outDegree := outDegree nd1 + 1\<rparr>, t \<mapsto> tnd\<lparr>parent := Some n, idx := i\<rparr>)"
    by (simp add: link_at_def)
  with nd1 have "s3 = s(n \<mapsto> nd\<lparr>children := (children nd)[unat i := Some t],
                       outDegree := outDegree nd + 1\<rparr>,
            t \<mapsto> tnd\<lparr>parent := Some n, idx := i\<rparr>)" by simp
  with sn st nd1 that show thesis by blast
qed

lemma link_at_self:
  assumes "link_at n n i s = Inr s3"
  shows "\<exists>nd. s3 n = Some nd \<and> parent nd = Some n"
  using assms by (auto simp: link_at_def split: option.splits sum.splits)

lemma insert_tail_wf:
  assumes w: "wf_heap s1" and sn: "s1 n = Some nd" and le: "i \<le> outDegree nd"
    and st: "s1 ta = Some tn" and tr: "parent tn = None"
    and sh: "insert_shift s1 n i (outDegree nd - 1) = Inr s2"
    and l: "link_at n ta i s2 = Inr s3"
    and u: "tree_update_height (Some n) s3 = Some (Inr s')"
  shows "wf_heap s'"
proof (cases "ta = n")
  case True
  with link_at_self [of n i s2 s3] l obtain x where "s3 n = Some x" "parent x = Some n" by auto
  with tree_update_height_not_self [OF u] show ?thesis by auto
next
  case False
  have i0: "i \<noteq> 0" using sh insert_shift_zero [of s1 n "outDegree nd - 1"] by auto
  with le have od0: "outDegree nd \<noteq> 0" by auto
  let ?m = "unat (outDegree nd)"
  from insert_room [OF sn le i0 sh l] have room: "?m < unat (alloced nd)" .
  from wf_heap_wfg [OF w, of n] sn have w0: "wfg s1 n ?m ?m {}" by simp
  have w1: "wfg s1 n (Suc ?m) ?m {}"
    by (rule wfg_extend [OF w0 _ sn]) (use room in auto)
  from le have im: "unat i \<le> ?m" by (simp add: word_le_nat_alt)
  from i0 have ip: "0 < unat i" by (simp add: unat_gt_0)
  from od0 have dec: "Suc (unat (outDegree nd - 1)) = ?m" by (simp add: unat_minus_one unat_gt_0)
  from insert_shift_wfg [OF w1 sn refl im _ ip dec sh] obtain nd2 where
    w2: "wfg s2 n (Suc ?m) (unat i) {}" and sn2: "s2 n = Some nd2"
    and od2: "outDegree nd2 = outDegree nd" by auto
  from insert_shift_parents [OF sh st] tr obtain tn2 where
    st2: "s2 ta = Some tn2" "parent tn2 = None" by auto
  from link_at_result [OF l False] sn2 st2 have
    s3: "s3 = s2(n \<mapsto> nd2\<lparr>children := (children nd2)[unat i := Some ta],
                       outDegree := outDegree nd2 + 1\<rparr>,
            ta \<mapsto> tn2\<lparr>parent := Some n, idx := i\<rparr>)" by auto
  have "wf_heap s3"
    unfolding s3
    by (rule fill_hole_root [OF w2 sn2 _ _ refl st2 False]) (use od2 im in simp_all)
  from this u show ?thesis by (rule tree_update_height_wf)
qed

lemma grow_frame:
  assumes "tree_children_grow_min_size rk n sz s = Inr (b, s1)"
  shows "(\<forall>x xn. s x = Some xn \<longrightarrow>
            (\<exists>xn1. s1 x = Some xn1 \<and> parent xn1 = parent xn \<and> outDegree xn1 = outDegree xn
                   \<and> idx xn1 = idx xn))
         \<and> (\<forall>x. s x = None \<longrightarrow> s1 x = None)"
  using assms
  by (auto simp: tree_children_grow_min_size_def split: option.splits if_splits)

lemma subtree_guard_cases:
  assumes e: "(case t of None \<Rightarrow> Some (Inr (t, s))
      | Some ta \<Rightarrow> (case s n of None \<Rightarrow> Some (Inl MemFault)
          | Some nd \<Rightarrow>
              if i > outDegree nd then Some (Inr (t, s))
              else (case s ta of None \<Rightarrow> Some (Inl MemFault)
                    | Some tn \<Rightarrow>
                        if parent tn \<noteq> None then Some (Inr (t, s))
                        else (case tree_children_grow_min_size rk n (outDegree nd + 1) s of
                                Inl e \<Rightarrow> Some (Inl e)
                              | Inr (ok, s1) \<Rightarrow>
                                  if \<not> ok then Some (Inr (t, s1))
                                  else body nd ta s1)))) = Some (Inr (r, s'))"
  shows "(r = t \<and> s' = s)
       \<or> (\<exists>ta tn nd s1. t = Some ta \<and> s n = Some nd \<and> i \<le> outDegree nd \<and> s ta = Some tn
             \<and> parent tn = None
             \<and> tree_children_grow_min_size rk n (outDegree nd + 1) s = Inr (True, s1)
             \<and> body nd ta s1 = Some (Inr (r, s')))"
proof (cases t)
  case None
  with e show ?thesis by simp
next
  case (Some ta)
  from e [unfolded Some] have e1: "(case s n of None \<Rightarrow> Some (Inl MemFault)
          | Some nd \<Rightarrow>
              if i > outDegree nd then Some (Inr (Some ta, s))
              else (case s ta of None \<Rightarrow> Some (Inl MemFault)
                    | Some tn \<Rightarrow>
                        if parent tn \<noteq> None then Some (Inr (Some ta, s))
                        else (case tree_children_grow_min_size rk n (outDegree nd + 1) s of
                                Inl e \<Rightarrow> Some (Inl e)
                              | Inr (ok, s1) \<Rightarrow>
                                  if \<not> ok then Some (Inr (Some ta, s1))
                                  else body nd ta s1))) = Some (Inr (r, s'))"
    by simp
  from opt_caseD [OF e1] obtain nd where nd: "s n = Some nd"
    and e2: "(if i > outDegree nd then Some (Inr (Some ta, s))
              else (case s ta of None \<Rightarrow> Some (Inl MemFault)
                    | Some tn \<Rightarrow>
                        if parent tn \<noteq> None then Some (Inr (Some ta, s))
                        else (case tree_children_grow_min_size rk n (outDegree nd + 1) s of
                                Inl e \<Rightarrow> Some (Inl e)
                              | Inr (ok, s1) \<Rightarrow>
                                  if \<not> ok then Some (Inr (Some ta, s1))
                                  else body nd ta s1))) = Some (Inr (r, s'))"
    by blast
  show ?thesis
  proof (cases "i > outDegree nd")
    case True
    with e2 Some show ?thesis by auto
  next
    case False
    with e2 have e3: "(case s ta of None \<Rightarrow> Some (Inl MemFault)
                    | Some tn \<Rightarrow>
                        if parent tn \<noteq> None then Some (Inr (Some ta, s))
                        else (case tree_children_grow_min_size rk n (outDegree nd + 1) s of
                                Inl e \<Rightarrow> Some (Inl e)
                              | Inr (ok, s1) \<Rightarrow>
                                  if \<not> ok then Some (Inr (Some ta, s1))
                                  else body nd ta s1)) = Some (Inr (r, s'))"
      by simp
    from opt_caseD [OF e3] obtain tn where tn: "s ta = Some tn"
      and e4: "(if parent tn \<noteq> None then Some (Inr (Some ta, s))
                        else (case tree_children_grow_min_size rk n (outDegree nd + 1) s of
                                Inl e \<Rightarrow> Some (Inl e)
                              | Inr (ok, s1) \<Rightarrow>
                                  if \<not> ok then Some (Inr (Some ta, s1))
                                  else body nd ta s1)) = Some (Inr (r, s'))"
      by blast
    show ?thesis
    proof (cases "parent tn")
      case (Some q)
      with e4 \<open>t = Some ta\<close> show ?thesis by auto
    next
      case None
      with e4 have e5: "(case tree_children_grow_min_size rk n (outDegree nd + 1) s of
                                Inl e \<Rightarrow> Some (Inl e)
                              | Inr (ok, s1) \<Rightarrow>
                                  if \<not> ok then Some (Inr (Some ta, s1))
                                  else body nd ta s1) = Some (Inr (r, s'))"
        by simp
      from sum_caseD [OF e5] obtain g where
        g: "tree_children_grow_min_size rk n (outDegree nd + 1) s = Inr g"
        and e6: "(case g of (ok, s1) \<Rightarrow>
                                  if \<not> ok then Some (Inr (Some ta, s1))
                                  else body nd ta s1) = Some (Inr (r, s'))"
        by blast
      obtain b s1 where gb: "g = (b, s1)" by (cases g)
      show ?thesis
      proof (cases b)
        case False
        with e6 gb have "r = Some ta" "s' = s1" by auto
        moreover from g gb False have "s1 = s" by (auto dest: grow_false)
        ultimately show ?thesis using \<open>t = Some ta\<close> by simp
      next
        case True
        with e6 gb have "body nd ta s1 = Some (Inr (r, s'))" by simp
        with True g gb nd tn None False \<open>t = Some ta\<close> show ?thesis by auto
      qed
    qed
  qed
qed

lemma tree_insert_subtree_wf:
  assumes w: "wf_heap s" and r: "tree_insert_subtree rk n t i s = Some (Inr (r, s'))"
  shows "wf_heap s' \<and> (r \<noteq> None \<longrightarrow> r = t \<and> s' = s)"
proof -
  have "(r = t \<and> s' = s)
       \<or> (\<exists>ta tn nd s1. t = Some ta \<and> s n = Some nd \<and> i \<le> outDegree nd \<and> s ta = Some tn
             \<and> parent tn = None
             \<and> tree_children_grow_min_size rk n (outDegree nd + 1) s = Inr (True, s1)
             \<and> (case insert_shift s1 n i (outDegree nd - 1) of
                                          Inl e \<Rightarrow> Some (Inl e)
                                        | Inr s2 \<Rightarrow> (case link_at n ta i s2 of
                                              Inl e \<Rightarrow> Some (Inl e)
                                            | Inr s3 \<Rightarrow>
                                                (case tree_update_height (Some n) s3 of
                                                   None \<Rightarrow> None
                                                 | Some (Inl e) \<Rightarrow> Some (Inl e)
                                                 | Some (Inr s4) \<Rightarrow> Some (Inr (None, s4)))))
                 = Some (Inr (r, s')))"
    by (rule subtree_guard_cases [where body = "\<lambda>nd ta s1.
            (case insert_shift s1 n i (outDegree nd - 1) of
                                          Inl e \<Rightarrow> Some (Inl e)
                                        | Inr s2 \<Rightarrow> (case link_at n ta i s2 of
                                              Inl e \<Rightarrow> Some (Inl e)
                                            | Inr s3 \<Rightarrow>
                                                (case tree_update_height (Some n) s3 of
                                                   None \<Rightarrow> None
                                                 | Some (Inl e) \<Rightarrow> Some (Inl e)
                                                 | Some (Inr s4) \<Rightarrow> Some (Inr (None, s4)))))",
          OF r [unfolded tree_insert_subtree_def]])
  then consider (a) "r = t" "s' = s"
    | (b) ta tn nd s1 where "t = Some ta" "s n = Some nd" "i \<le> outDegree nd" "s ta = Some tn"
        "parent tn = None"
        "tree_children_grow_min_size rk n (outDegree nd + 1) s = Inr (True, s1)"
        "(case insert_shift s1 n i (outDegree nd - 1) of
                                          Inl e \<Rightarrow> Some (Inl e)
                                        | Inr s2 \<Rightarrow> (case link_at n ta i s2 of
                                              Inl e \<Rightarrow> Some (Inl e)
                                            | Inr s3 \<Rightarrow>
                                                (case tree_update_height (Some n) s3 of
                                                   None \<Rightarrow> None
                                                 | Some (Inl e) \<Rightarrow> Some (Inl e)
                                                 | Some (Inr s4) \<Rightarrow> Some (Inr (None, s4)))))
                 = Some (Inr (r, s'))"
    by blast
  then show ?thesis
  proof cases
    case a
    with w show ?thesis by simp
  next
    case b
    from sum_caseD [OF b(7)] obtain s2 where sh: "insert_shift s1 n i (outDegree nd - 1) = Inr s2"
      and e1: "(case link_at n ta i s2 of
                                              Inl e \<Rightarrow> Some (Inl e)
                                            | Inr s3 \<Rightarrow>
                                                (case tree_update_height (Some n) s3 of
                                                   None \<Rightarrow> None
                                                 | Some (Inl e) \<Rightarrow> Some (Inl e)
                                                 | Some (Inr s4) \<Rightarrow> Some (Inr (None, s4))))
                 = Some (Inr (r, s'))" by blast
    from sum_caseD [OF e1] obtain s3 where l': "link_at n ta i s2 = Inr s3"
      and e2: "(case tree_update_height (Some n) s3 of
                                                   None \<Rightarrow> None
                                                 | Some (Inl e) \<Rightarrow> Some (Inl e)
                                                 | Some (Inr s4) \<Rightarrow> Some (Inr (None, s4)))
                 = Some (Inr (r, s'))" by blast
    from part_caseD [OF e2] obtain s4 where u: "tree_update_height (Some n) s3 = Some (Inr s4)"
      and e3: "Some (Inr (None, s4)) = Some (Inr (r, s'))" by blast
    from e3 have rs: "r = None" "s4 = s'" by auto
    from grow_wf [OF w b(6)] have w1: "wf_heap s1" by simp
    from grow_frame [OF b(6)] b(2,4,5) obtain nd1 tn1 where
      f: "s1 n = Some nd1" "outDegree nd1 = outDegree nd" "s1 ta = Some tn1" "parent tn1 = None"
      by (metis (no_types, lifting))
    have "wf_heap s'"
      by (rule insert_tail_wf [OF w1 f(1) _ f(3,4) _ l']) (use f(2) b(3) sh u rs in simp_all)
    with rs show ?thesis by simp
  qed
qed

lemma set_at_self:
  assumes "set_at n n i s = Inr s2"
  shows "\<exists>nd. s2 n = Some nd \<and> parent nd = Some n"
proof -
  from assms obtain sx tn where "sx n = Some tn" "s2 = sx(n \<mapsto> tn\<lparr>parent := Some n, idx := i\<rparr>)"
    unfolding set_at_def
    by (auto dest!: optE_caseD sumE_caseD)
  then show ?thesis by simp
qed

lemma set_at_wf:
  assumes w: "wf_heap s1" and sn: "s1 n = Some nd" and le: "i \<le> outDegree nd"
    and st: "s1 ta = Some tn" and tr: "parent tn = None" and tan: "ta \<noteq> n"
    and sa: "set_at n ta i s1 = Inr s2"
  shows "wf_heap s2"
proof -
  let ?m = "unat (outDegree nd)"
  from wf_heap_wfg [OF w, of n] sn have w0: "wfg s1 n ?m ?m {}" by simp
  from wfg_len [OF w0 sn] have len: "length (children nd) = unat (alloced nd)"
    "?m \<le> unat (alloced nd)" by (auto simp: deg_def)
  show ?thesis
  proof (cases "i = outDegree nd")
    case True
    from sa sn True obtain nd1 where sc: "set_child_at nd i (Some ta) = Inr nd1"
      by (auto simp: set_at_def split: sum.splits)
    then have nd1: "nd1 = nd\<lparr>children := (children nd)[unat i := Some ta]\<rparr>"
      "unat i < unat (alloced nd)"
      by (auto simp: set_child_at_def split: if_splits)
    from sa sn True sc st tan nd1
    have s2: "s2 = s1(n \<mapsto> nd\<lparr>children := (children nd)[?m := Some ta],
                               outDegree := outDegree nd + 1\<rparr>,
                      ta \<mapsto> tn\<lparr>parent := Some n, idx := i\<rparr>)"
      by (simp add: set_at_def)
    have w1: "wfg s1 n (Suc ?m) ?m {}"
      by (rule wfg_extend [OF w0 _ sn]) (use nd1 True in auto)
    show ?thesis
      unfolding s2
      by (rule fill_hole_root [OF w1 sn refl _ _ st tr tan]) (use True in simp_all)
  next
    case False
    with le have "i < outDegree nd" by simp
    then have lt: "unat i < ?m" by (simp add: word_less_nat_alt)
    from wfg_down [OF w0 sn, of "unat i"] lt obtain c cn where
      c: "children nd ! unat i = Some c" "s1 c = Some cn" "parent cn = Some n"
      by (auto simp: deg_def)
    from wfg_root [OF w0 c(2)] c(3) have cn: "c \<noteq> n" by auto
    from c(2,3) st tr have cta: "c \<noteq> ta" by auto
    have ca: "child_at nd i = Inr (Some c)" using lt len c(1) by (simp add: child_at_def)
    have fr: "tree_free (Some c) s1 = Inr (s1(c := None))" using c(2) by (simp add: tree_free_def)
    have sc: "set_child_at nd i (Some ta) = Inr (nd\<lparr>children := (children nd)[unat i := Some ta]\<rparr>)"
      using lt len by (simp add: set_child_at_def)
    from sa sn False ca fr sc cn cta st tan
    have s2: "s2 = (s1(c := None))(n \<mapsto> nd\<lparr>children := (children nd)[unat i := Some ta]\<rparr>,
                      ta \<mapsto> tn\<lparr>parent := Some n, idx := i\<rparr>)"
      by (simp add: set_at_def)
    have w1: "wfg (s1(c := None)) n ?m (unat i) {}"
      by (rule free_child_hole [OF w0 _ sn lt c(1)]) simp
    have w2: "wfg ((s1(c := None))(n \<mapsto> nd\<lparr>children := (children nd)[unat i := Some ta]\<rparr>,
                      ta \<mapsto> tn\<lparr>parent := Some n, idx := i\<rparr>)) n ?m ?m {}"
      by (rule place_root [OF w1 _ lt _ tr tan _ refl]) (use sn st cn cta in auto)
    show ?thesis
      unfolding s2 by (rule wfg_wf_heap' [OF w2]) (use tan in \<open>simp_all add: dg_def\<close>)
  qed
qed

lemma tree_set_subtree_wf:
  assumes w: "wf_heap s" and r: "tree_set_subtree rk n t i s = Some (Inr (r, s'))"
  shows "wf_heap s' \<and> (r \<noteq> None \<longrightarrow> r = t \<and> s' = s)"
proof -
  have "(r = t \<and> s' = s)
       \<or> (\<exists>ta tn nd s1. t = Some ta \<and> s n = Some nd \<and> i \<le> outDegree nd \<and> s ta = Some tn
             \<and> parent tn = None
             \<and> tree_children_grow_min_size rk n (outDegree nd + 1) s = Inr (True, s1)
             \<and> (case set_at n ta i s1 of Inl e \<Rightarrow> Some (Inl e)
                                        | Inr s2 \<Rightarrow> (case tree_update_height (Some n) s2 of
                                              None \<Rightarrow> None
                                            | Some (Inl e) \<Rightarrow> Some (Inl e)
                                            | Some (Inr s3) \<Rightarrow> Some (Inr (None, s3))))
                 = Some (Inr (r, s')))"
    by (rule subtree_guard_cases [where body = "\<lambda>nd ta s1.
            (case set_at n ta i s1 of Inl e \<Rightarrow> Some (Inl e)
                                        | Inr s2 \<Rightarrow> (case tree_update_height (Some n) s2 of
                                              None \<Rightarrow> None
                                            | Some (Inl e) \<Rightarrow> Some (Inl e)
                                            | Some (Inr s3) \<Rightarrow> Some (Inr (None, s3))))",
          OF r [unfolded tree_set_subtree_def]])
  then consider (a) "r = t" "s' = s"
    | (b) ta tn nd s1 where "t = Some ta" "s n = Some nd" "i \<le> outDegree nd" "s ta = Some tn"
        "parent tn = None"
        "tree_children_grow_min_size rk n (outDegree nd + 1) s = Inr (True, s1)"
        "(case set_at n ta i s1 of Inl e \<Rightarrow> Some (Inl e)
                                        | Inr s2 \<Rightarrow> (case tree_update_height (Some n) s2 of
                                              None \<Rightarrow> None
                                            | Some (Inl e) \<Rightarrow> Some (Inl e)
                                            | Some (Inr s3) \<Rightarrow> Some (Inr (None, s3))))
                 = Some (Inr (r, s'))"
    by blast
  then show ?thesis
  proof cases
    case a
    with w show ?thesis by simp
  next
    case b
    from sum_caseD [OF b(7)] obtain s2 where sa: "set_at n ta i s1 = Inr s2"
      and e2: "(case tree_update_height (Some n) s2 of
                                                   None \<Rightarrow> None
                                                 | Some (Inl e) \<Rightarrow> Some (Inl e)
                                                 | Some (Inr s4) \<Rightarrow> Some (Inr (None, s4)))
                 = Some (Inr (r, s'))" by blast
    from part_caseD [OF e2] obtain s4 where u: "tree_update_height (Some n) s2 = Some (Inr s4)"
      and e3: "Some (Inr (None, s4)) = Some (Inr (r, s'))" by blast
    from e3 have rs: "r = None" "s4 = s'" by auto
    from grow_wf [OF w b(6)] have w1: "wf_heap s1" by simp
    from grow_frame [OF b(6)] b(2,4,5) obtain nd1 tn1 where
      f: "s1 n = Some nd1" "outDegree nd1 = outDegree nd" "s1 ta = Some tn1" "parent tn1 = None"
      by (metis (no_types, lifting))
    have tan: "ta \<noteq> n"
    proof
      assume "ta = n"
      with set_at_self [of n i s1 s2] sa obtain x where "s2 n = Some x" "parent x = Some n"
        by auto
      with tree_update_height_not_self [OF u] show False by auto
    qed
    have "wf_heap s2"
      by (rule set_at_wf [OF w1 f(1) _ f(3,4) tan sa]) (use f(2) b(3) in simp)
    from this u have "wf_heap s4" by (rule tree_update_height_wf)
    with rs show ?thesis by simp
  qed
qed

lemma grow_dead:
  assumes f: "s a = None" and g: "tree_children_grow_min_size rk n sz s = Inr (b, s1)"
  shows "s1 a = None"
  using grow_frame [OF g] f by blast

lemma tree_add_child_wf:
  assumes w: "wf_heap s" and m: "malloc_ok s m" and r: "tree_add_child rk m n d s = Some (Inr (r, s'))"
  shows "wf_heap s'"
proof -
  from opt_caseD [OF r [unfolded tree_add_child_def]] obtain nd where nd: "s n = Some nd"
    and e1: "(case tree_children_grow_min_size rk n (outDegree nd + 1) s of
            Inl e \<Rightarrow> Some (Inl e)
          | Inr (ok, s1) \<Rightarrow>
              if \<not> ok then Some (Inr (None, s1))
              else (case tree_alloc m d s1 of
                      (None, s2) \<Rightarrow> Some (Inr (None, s2))
                    | (Some c, s2) \<Rightarrow> (case link_last n c s2 of Inl e \<Rightarrow> Some (Inl e)
                        | Inr s3 \<Rightarrow> (case tree_update_height (Some n) s3 of None \<Rightarrow> None
                            | Some (Inl e) \<Rightarrow> Some (Inl e)
                            | Some (Inr s4) \<Rightarrow> Some (Inr (Some c, s4)))))) = Some (Inr (r, s'))"
    by blast
  from sum_caseD [OF e1] obtain g where g: "tree_children_grow_min_size rk n (outDegree nd + 1) s = Inr g"
    and e2: "(case g of (ok, s1) \<Rightarrow>
              if \<not> ok then Some (Inr (None, s1))
              else (case tree_alloc m d s1 of
                      (None, s2) \<Rightarrow> Some (Inr (None, s2))
                    | (Some c, s2) \<Rightarrow> (case link_last n c s2 of Inl e \<Rightarrow> Some (Inl e)
                        | Inr s3 \<Rightarrow> (case tree_update_height (Some n) s3 of None \<Rightarrow> None
                            | Some (Inl e) \<Rightarrow> Some (Inl e)
                            | Some (Inr s4) \<Rightarrow> Some (Inr (Some c, s4)))))) = Some (Inr (r, s'))"
    by blast
  obtain b s1 where gb: "g = (b, s1)" by (cases g)
  from grow_wf [OF w g [unfolded gb]] have w1: "wf_heap s1" by simp
  show ?thesis
  proof (cases b)
    case False
    with e2 gb have "s' = s1" by auto
    with w1 show ?thesis by simp
  next
    case True
    show ?thesis
    proof (cases m)
      case None
      with e2 gb True have "s' = s1" by (auto simp: tree_alloc_def)
      with w1 show ?thesis by simp
    next
      case (Some a)
      let ?s2 = "snd (tree_alloc (Some a) d s1)"
      from Some m have "s a = None" by (simp add: malloc_ok_def)
      from grow_dead [OF this g [unfolded gb]] have f1: "s1 a = None" .
      from tree_alloc_wf [OF w1 f1] have w2: "wf_heap ?s2" .
      from e2 gb True Some
      have e3: "(case link_last n a ?s2 of Inl e \<Rightarrow> Some (Inl e)
                        | Inr s3 \<Rightarrow> (case tree_update_height (Some n) s3 of None \<Rightarrow> None
                            | Some (Inl e) \<Rightarrow> Some (Inl e)
                            | Some (Inr s4) \<Rightarrow> Some (Inr (Some a, s4)))) = Some (Inr (r, s'))"
        by (simp add: tree_alloc_def)
      from sum_caseD [OF e3] obtain s3 where l: "link_last n a ?s2 = Inr s3"
        and e4: "(case tree_update_height (Some n) s3 of None \<Rightarrow> None
                            | Some (Inl e) \<Rightarrow> Some (Inl e)
                            | Some (Inr s4) \<Rightarrow> Some (Inr (Some a, s4))) = Some (Inr (r, s'))"
        by blast
      from part_caseD [OF e4] obtain s4 where u: "tree_update_height (Some n) s3 = Some (Inr s4)"
        and e5: "Some (Inr (Some a, s4)) = Some (Inr (r, s'))" by blast
      from e5 have "s4 = s'" by auto
      moreover have "wf_heap s4"
        by (rule attach_tail_wf [OF w2 _ l u]) (simp add: tree_alloc_def)
      ultimately show ?thesis by simp
    qed
  qed
qed

lemma child_wrapper_wf:
  assumes w: "wf_heap s" and m: "malloc_ok s m"
    and sub: "\<And>s1 c' s2. wf_heap s1 \<Longrightarrow> sub n (fst (tree_alloc m d s)) i s1 = Some (Inr (c', s2))
               \<Longrightarrow> wf_heap s2 \<and> (c' \<noteq> None \<longrightarrow> c' = fst (tree_alloc m d s) \<and> s2 = s1)"
    and r: "(case s n of None \<Rightarrow> Some (Inl MemFault)
      | Some nd \<Rightarrow>
          if i > outDegree nd then Some (Inr (None, s))
          else (case tree_alloc m d s of
                  (c, s1) \<Rightarrow> (case sub n c i s1 of None \<Rightarrow> None
                    | Some (Inl e) \<Rightarrow> Some (Inl e)
                    | Some (Inr (c', s2)) \<Rightarrow>
                        if c' = None then Some (Inr (c', s2))
                        else (case tree_free c' s2 of Inl e \<Rightarrow> Some (Inl e)
                              | Inr s3 \<Rightarrow> Some (Inr (None, s3)))))) = Some (Inr (r, s'))"
  shows "wf_heap s'"
proof -
  from opt_caseD [OF r] obtain nd where nd: "s n = Some nd"
    and e1: "(if i > outDegree nd then Some (Inr (None, s))
          else (case tree_alloc m d s of
                  (c, s1) \<Rightarrow> (case sub n c i s1 of None \<Rightarrow> None
                    | Some (Inl e) \<Rightarrow> Some (Inl e)
                    | Some (Inr (c', s2)) \<Rightarrow>
                        if c' = None then Some (Inr (c', s2))
                        else (case tree_free c' s2 of Inl e \<Rightarrow> Some (Inl e)
                              | Inr s3 \<Rightarrow> Some (Inr (None, s3)))))) = Some (Inr (r, s'))"
    by blast
  show ?thesis
  proof (cases "i > outDegree nd")
    case True
    with e1 w show ?thesis by auto
  next
    case False
    obtain c s1 where al: "tree_alloc m d s = (c, s1)" by (cases "tree_alloc m d s")
    from False e1 al have e2: "(case sub n c i s1 of None \<Rightarrow> None
                    | Some (Inl e) \<Rightarrow> Some (Inl e)
                    | Some (Inr (c', s2)) \<Rightarrow>
                        if c' = None then Some (Inr (c', s2))
                        else (case tree_free c' s2 of Inl e \<Rightarrow> Some (Inl e)
                              | Inr s3 \<Rightarrow> Some (Inr (None, s3)))) = Some (Inr (r, s'))"
      by simp
    from part_caseD [OF e2] obtain v where v: "sub n c i s1 = Some (Inr v)"
      and e3: "(case v of (c', s2) \<Rightarrow>
                        if c' = None then Some (Inr (c', s2))
                        else (case tree_free c' s2 of Inl e \<Rightarrow> Some (Inl e)
                              | Inr s3 \<Rightarrow> Some (Inr (None, s3)))) = Some (Inr (r, s'))"
      by blast
    obtain c' s2 where vv: "v = (c', s2)" by (cases v)
    have w1: "wf_heap s1"
    proof (cases m)
      case None
      with al w show ?thesis by (simp add: tree_alloc_def)
    next
      case (Some a)
      with m have "s a = None" by (simp add: malloc_ok_def)
      from tree_alloc_wf [OF w this, of d] al Some show ?thesis by simp
    qed
    from sub [OF w1] v vv al have s2: "wf_heap s2" "c' \<noteq> None \<longrightarrow> c' = c \<and> s2 = s1" by auto
    show ?thesis
    proof (cases c')
      case None
      with e3 vv s2 show ?thesis by auto
    next
      case (Some a)
      with s2 have c: "c = Some a" "s2 = s1" by auto
      with al have ma: "m = Some a" "s1 = s(a \<mapsto> \<lparr>parent = None, children = [], outDegree = 0,
          data = d, alloced = 0, idx = 0, hgt = 0\<rparr>)"
        by (auto simp: tree_alloc_def split: option.splits)
      with m have "s a = None" by (simp add: malloc_ok_def)
      with ma have "s1(a := None) = s" by (auto simp: fun_eq_iff)
      moreover from e3 vv Some c ma have "s' = s1(a := None)"
        by (auto simp: tree_free_def)
      ultimately show ?thesis using w by simp
    qed
  qed
qed

lemma tree_insert_child_wf:
  assumes w: "wf_heap s" and m: "malloc_ok s m"
    and r: "tree_insert_child rk m n d i s = Some (Inr (r, s'))"
  shows "wf_heap s'"
  by (rule child_wrapper_wf [where sub = "tree_insert_subtree rk", OF w m _
        r [unfolded tree_insert_child_def]])
     (rule tree_insert_subtree_wf)

lemma tree_set_child_wf:
  assumes w: "wf_heap s" and m: "malloc_ok s m"
    and r: "tree_set_child rk m n d i s = Some (Inr (r, s'))"
  shows "wf_heap s'"
  by (rule child_wrapper_wf [where sub = "tree_set_subtree rk", OF w m _
        r [unfolded tree_set_child_def]])
     (rule tree_set_subtree_wf)

lemma mutation_wf: "mutation s s' \<Longrightarrow> wf_heap s \<Longrightarrow> wf_heap s'"
proof (induction rule: mutation.induct)
  case (m_alloc s a d)
  then show ?case by (simp add: tree_alloc_wf)
next
  case (m_remove n s r s')
  from tree_remove_wf [OF m_remove.prems m_remove.hyps] show ?case by simp
next
  case (m_delete n s s')
  show ?case by (rule tree_delete_wf [OF m_delete.prems m_delete.hyps])
next
  case (m_add_subtree rk n t s r s')
  show ?case by (rule tree_add_subtree_wf [OF m_add_subtree.prems m_add_subtree.hyps])
next
  case (m_add_child s m rk n d r s')
  show ?case by (rule tree_add_child_wf [OF m_add_child.prems m_add_child.hyps])
next
  case (m_insert_subtree rk n t i s r s')
  from tree_insert_subtree_wf [OF m_insert_subtree.prems m_insert_subtree.hyps]
  show ?case by simp
next
  case (m_insert_child s m rk n d i r s')
  show ?case by (rule tree_insert_child_wf [OF m_insert_child.prems m_insert_child.hyps])
next
  case (m_set_subtree rk n t i s r s')
  from tree_set_subtree_wf [OF m_set_subtree.prems m_set_subtree.hyps]
  show ?case by simp
next
  case (m_set_child s m rk n d i r s')
  show ?case by (rule tree_set_child_wf [OF m_set_child.prems m_set_child.hyps])
qed

lemma mutations_wf: "mutation\<^sup>*\<^sup>* s s' \<Longrightarrow> wf_heap s \<Longrightarrow> wf_heap s'"
  by (induction rule: rtranclp_induct) (auto intro: mutation_wf)

lemma tree_remove_shifts_idx:
  assumes w: "wf_heap s" and sc: "s c = Some cn" and cp: "parent cn = Some p"
    and sp: "s p = Some pn" and r: "tree_remove c s = Some (Inr (r, s'))"
    and up: "children pn ! unat (idx cn) = Some c" "unat (idx cn) < unat (outDegree pn)"
  shows "shifted_down s s' p (unat (idx cn))"
proof -
  let ?m = "unat (outDegree pn)"
  let ?k = "unat (idx cn)"
  obtain s1 nd1 s2 nd2 where
    rc: "tree_node_remove_child c s = Inr s1" and n1: "s1 c = Some nd1"
    and uh: "tree_update_height (parent nd1) s1 = Some (Inr s2)" and n2: "s2 c = Some nd2"
    and s': "s' = s2(c \<mapsto> nd2\<lparr>parent := None, idx := 0\<rparr>)" and rn: "r = c"
    by (rule tree_remove_nonroot [OF r sc cp])
  from remove_child_counted [OF w sc cp sp rc up] obtain pn1 where
    x: "s1 p = Some pn1" "outDegree pn1 = outDegree pn - 1" "0 < ?m" "c \<noteq> p"
       "\<forall>k<?k. children pn1 ! k = children pn ! k"
       "\<forall>k. ?k \<le> k \<and> k < ?m - 1 \<longrightarrow> children pn1 ! k = children pn ! Suc k"
    by blast
  from tree_update_height_result [OF uh] have h: "hgt_only s1 s2" by simp
  from h x(1) obtain hv where "s2 p = Some (pn1\<lparr>hgt := hv\<rparr>)"
    unfolding hgt_only_def by (auto dest!: spec [of _ p])
  with s' x(4) have sp': "s' p = Some (pn1\<lparr>hgt := hv\<rparr>)" by simp
  let ?pn' = "pn1\<lparr>hgt := hv\<rparr>"
  from tree_remove_wf [OF w r] have w': "wf_heap s'" by simp
  note n = wf_heap_node [OF w sp] and n' = wf_heap_node [OF w' sp']
  from x(2,3) have od': "unat (outDegree ?pn') = ?m - 1" by (simp add: unat_minus_one unat_gt_0)
  note km = up(2)
  have a: "\<forall>j<?k. child_at ?pn' (of_nat j) = child_at pn (of_nat j)"
  proof (intro allI impI)
    fix j assume j: "j < ?k"
    with km od' have j1: "j < unat (outDegree ?pn')" and j2: "j < ?m" by auto
    from x(5) j have "children ?pn' ! j = children pn ! j" by simp
    with child_at_nth [OF j1 n'(2) n'(1)] child_at_nth [OF j2 n(2) n(1)]
    show "child_at ?pn' (of_nat j) = child_at pn (of_nat j)" by simp
  qed
  have b: "\<forall>j. ?k \<le> j \<and> j < ?m - 1 \<longrightarrow>
              (\<exists>x xn xn'. child_at pn (of_nat (Suc j)) = Inr (Some x)
                  \<and> child_at ?pn' (of_nat j) = Inr (Some x)
                  \<and> s x = Some xn \<and> unat (idx xn) = Suc j
                  \<and> s' x = Some xn' \<and> unat (idx xn') = j)"
  proof (intro allI impI)
    fix j assume j: "?k \<le> j \<and> j < ?m - 1"
    then have j1: "Suc j < ?m" and j2: "j < unat (outDegree ?pn')" using od' by auto
    from n(3) [OF j1] obtain y yn where y: "children pn ! Suc j = Some y" "s y = Some yn"
      "unat (idx yn) = Suc j" by blast
    from n'(3) [OF j2] obtain z zn where z: "children ?pn' ! j = Some z" "s' z = Some zn"
      "unat (idx zn) = j" by blast
    from x(6) j have "children ?pn' ! j = children pn ! Suc j" by simp
    with y z have zy: "z = y" by simp
    have c1: "child_at pn (of_nat (Suc j)) = Inr (Some y)"
      using child_at_nth [OF j1 n(2) n(1)] y(1) by simp
    have c2: "child_at ?pn' (of_nat j) = Inr (Some y)"
      using child_at_nth [OF j2 n'(2) n'(1)] z(1) zy by simp
    from c1 c2 y(2,3) z(2,3) zy
    show "\<exists>x xn xn'. child_at pn (of_nat (Suc j)) = Inr (Some x)
                  \<and> child_at ?pn' (of_nat j) = Inr (Some x)
                  \<and> s x = Some xn \<and> unat (idx xn) = Suc j
                  \<and> s' x = Some xn' \<and> unat (idx xn') = j"
      by blast
  qed
  show ?thesis
    unfolding shifted_down_def
  proof (intro exI conjI)
    show "s p = Some pn" by (rule sp)
    show "s' p = Some ?pn'" by (rule sp')
    show "?k < ?m" by (rule km)
    show "unat (outDegree ?pn') = ?m - 1" by (rule od')
    show "\<forall>j<?k. child_at ?pn' (of_nat j) = child_at pn (of_nat j)" by (rule a)
    show "\<forall>j. ?k \<le> j \<and> j < ?m - 1 \<longrightarrow>
              (\<exists>x xn xn'. child_at pn (of_nat (Suc j)) = Inr (Some x)
                  \<and> child_at ?pn' (of_nat j) = Inr (Some x)
                  \<and> s x = Some xn \<and> unat (idx xn) = Suc j
                  \<and> s' x = Some xn' \<and> unat (idx xn') = j)" by (rule b)
  qed
qed

lemma tree_remove_shifts:
  assumes w: "wf_heap s" and sp: "s p = Some pn" and k: "k < unat (outDegree pn)"
    and ck: "children pn ! k = Some c" and r: "tree_remove c s = Some (Inr (r, s'))"
  shows "shifted_down s s' p k"
proof -
  from wf_heap_node(3) [OF w sp k] ck obtain cn where
    c: "s c = Some cn" "parent cn = Some p" "unat (idx cn) = k" by auto
  from c(3) k ck have "children pn ! unat (idx cn) = Some c" "unat (idx cn) < unat (outDegree pn)"
    by simp_all
  from tree_remove_shifts_idx [OF w c(1,2) sp r this] c(3) show ?thesis by simp
qed

lemma path_cong:
  assumes "path s x as"
    and "\<And>b nd. b \<in> set as \<Longrightarrow> s b = Some nd \<Longrightarrow> \<exists>nd'. s' b = Some nd' \<and> parent nd' = parent nd"
  shows "path s' x as"
  using assms
proof (induction as arbitrary: x)
  case Nil
  then show ?case by simp
next
  case (Cons a as)
  from Cons.prems(1) obtain nd where x: "x = Some a" and sa: "s a = Some nd"
    and pa: "path s (parent nd) as"
    by (auto split: option.splits)
  from Cons.prems(2) [of a nd] sa obtain nd' where sa': "s' a = Some nd'"
    and pp: "parent nd' = parent nd" by auto
  have "path s' (parent nd) as"
    by (rule Cons.IH [OF pa]) (use Cons.prems(2) in auto)
  with x sa' pp show ?case by simp
qed

lemma path_closed:
  assumes "path s x as" and "a \<in> set as" and "s a = Some nd" and "parent nd = Some b"
  shows "b \<in> set as"
  using assms
proof (induction as arbitrary: x)
  case Nil
  then show ?case by simp
next
  case (Cons c as)
  from Cons.prems(1) obtain cn where x: "x = Some c" and sc: "s c = Some cn"
    and pa: "path s (parent cn) as"
    by (auto split: option.splits)
  show ?case
  proof (cases "a = c")
    case True
    with sc Cons.prems(3,4) have "parent cn = Some b" by simp
    with pa have "b \<in> set as" by (cases as) auto
    then show ?thesis by simp
  next
    case False
    with Cons.prems(2) have "a \<in> set as" by simp
    from Cons.IH [OF pa this Cons.prems(3,4)] show ?thesis by simp
  qed
qed

lemma path_head: "path s (Some p) as \<Longrightarrow> p \<in> set as"
  by (cases as) auto

lemma wf_heap_kids_live: "wf_heap s \<Longrightarrow> kids_live s"
  unfolding kids_live_def
proof (intro allI impI)
  fix a nd
  assume w: "wf_heap s" and sa: "s a = Some nd"
  from wf_heap_node [OF w sa]
  show "length (children nd) = unat (alloced nd) \<and> unat (outDegree nd) \<le> unat (alloced nd)
        \<and> (\<forall>k < unat (outDegree nd). \<exists>c cn. children nd ! k = Some c \<and> s c = Some cn)"
    by blast
qed

lemma kids_live_node:
  assumes "kids_live s" and "s a = Some nd"
  shows "length (children nd) = unat (alloced nd)" "unat (outDegree nd) \<le> unat (alloced nd)"
    "\<And>k. k < unat (outDegree nd) \<Longrightarrow> \<exists>c cn. children nd ! k = Some c \<and> s c = Some cn"
proof -
  from assms have x: "length (children nd) = unat (alloced nd) \<and> unat (outDegree nd) \<le> unat (alloced nd)
        \<and> (\<forall>k < unat (outDegree nd). \<exists>c cn. children nd ! k = Some c \<and> s c = Some cn)"
    unfolding kids_live_def by (elim allE [of _ a] allE [of _ nd] impE) assumption
  from x show "length (children nd) = unat (alloced nd)" by (rule conjunct1)
  from x show "unat (outDegree nd) \<le> unat (alloced nd)" by simp
  from x show "\<And>k. k < unat (outDegree nd) \<Longrightarrow> \<exists>c cn. children nd ! k = Some c \<and> s c = Some cn"
    by simp
qed

lemma kids_live_hgt:
  assumes k: "kids_live s" and sa: "s a = Some nd"
  shows "kids_live (s(a \<mapsto> nd\<lparr>hgt := hv\<rparr>))"
  unfolding kids_live_def
proof (intro allI impI)
  fix b bn
  assume sb: "(s(a \<mapsto> nd\<lparr>hgt := hv\<rparr>)) b = Some bn"
  then obtain bn0 where b0: "s b = Some bn0" and ch: "children bn = children bn0"
    "alloced bn = alloced bn0" "outDegree bn = outDegree bn0"
    using sa by (cases "b = a") auto
  have live: "\<exists>cn. (s(a \<mapsto> nd\<lparr>hgt := hv\<rparr>)) c = Some cn" if "s c = Some cn0" for c cn0
    using that by simp
  from kids_live_node [OF k b0] ch live
  show "length (children bn) = unat (alloced bn) \<and> unat (outDegree bn) \<le> unat (alloced bn)
        \<and> (\<forall>k < unat (outDegree bn).
              \<exists>c cn. children bn ! k = Some c \<and> (s(a \<mapsto> nd\<lparr>hgt := hv\<rparr>)) c = Some cn)"
    by (metis (no_types, lifting))
qed

lemma max_fold_ok:
  assumes "\<And>k. k \<in> set ks \<Longrightarrow> \<exists>c cn. child_at nd (of_nat k) = Inr (Some c) \<and> s c = Some cn"
  shows "\<exists>hv. fold (\<lambda>k acc. case acc of Inl e \<Rightarrow> Inl e
                   | Inr hv \<Rightarrow> (case child_at nd (of_nat k) of Inl e \<Rightarrow> Inl e
                       | Inr c \<Rightarrow> (case load s c of Inl e \<Rightarrow> Inl e
                           | Inr cn \<Rightarrow> Inr (if hv > hgt cn then hv else hgt cn))))
          ks (Inr h0) = Inr hv"
  using assms
proof (induction ks arbitrary: h0)
  case Nil
  show ?case by simp
next
  case (Cons k ks)
  from Cons.prems [of k] obtain c cn where c: "child_at nd (of_nat k) = Inr (Some c)" "s c = Some cn"
    by auto
  have "\<exists>hv. fold (\<lambda>k acc. case acc of Inl e \<Rightarrow> Inl e
                   | Inr hv \<Rightarrow> (case child_at nd (of_nat k) of Inl e \<Rightarrow> Inl e
                       | Inr c \<Rightarrow> (case load s c of Inl e \<Rightarrow> Inl e
                           | Inr cn \<Rightarrow> Inr (if hv > hgt cn then hv else hgt cn))))
          ks (Inr (if h0 > hgt cn then h0 else hgt cn)) = Inr hv"
    by (rule Cons.IH) (use Cons.prems in auto)
  with c show ?case by (simp add: load_def)
qed

lemma max_child_h_ok:
  assumes k: "kids_live s" and sa: "s a = Some nd"
  shows "\<exists>hv. max_child_h s nd = Inr hv"
  unfolding max_child_h_def
proof (rule max_fold_ok)
  fix k assume "k \<in> set [0 ..< unat (outDegree nd)]"
  then have lt: "k < unat (outDegree nd)" by simp
  from kids_live_node(3) [OF k sa lt] obtain c cn where c: "children nd ! k = Some c" "s c = Some cn"
    by blast
  from child_at_nth [OF lt kids_live_node(2,1) [OF k sa]] c
  show "\<exists>c cn. child_at nd (of_nat k) = Inr (Some c) \<and> s c = Some cn" by simp
qed

lemma tree_update_height_total:
  assumes "kids_live s" and "path s n as"
  shows "\<exists>s'. tree_update_height n s = Some (Inr s') \<and> hgt_only s s'
           \<and> (\<forall>a. a \<notin> set as \<longrightarrow> s' a = s a)"
  using assms
proof (induction as arbitrary: n s)
  case Nil
  then have "n = None" by simp
  then have "tree_update_height n s = Some (Inr s)" by (subst tree_update_height.simps) simp
  with hgt_only_refl [of s] show ?case by simp
next
  case (Cons a as)
  from Cons.prems(2) obtain nd where n: "n = Some a" and sa: "s a = Some nd"
    and pa: "path s (parent nd) as"
    by (auto split: option.splits)
  from max_child_h_ok [OF Cons.prems(1) sa] obtain hv where m: "max_child_h s nd = Inr hv" ..
  let ?s1 = "s(a \<mapsto> nd\<lparr>hgt := hv\<rparr>)"
  have k1: "kids_live ?s1" by (rule kids_live_hgt [OF Cons.prems(1) sa])
  have p1: "path ?s1 (parent nd) as"
    by (rule path_cong [OF pa]) (use sa in auto)
  from Cons.IH [OF k1 p1] obtain s' where u: "tree_update_height (parent nd) ?s1 = Some (Inr s')"
    and h: "hgt_only ?s1 s'" and f: "\<forall>b. b \<notin> set as \<longrightarrow> s' b = ?s1 b" by blast
  have "tree_update_height n s = Some (Inr s')"
    by (subst tree_update_height.simps) (simp add: n sa m u)
  moreover from hgt_only_step [OF sa h] have "hgt_only s s'" .
  moreover have "\<forall>b. b \<notin> set (a # as) \<longrightarrow> s' b = s b" using f by simp
  ultimately show ?case by blast
qed

lemma descendant_false_path:
  assumes "tree_is_descendant_of s d (Some t) = Some (Inr False)"
  shows "\<exists>as. path s d as \<and> t \<notin> set as"
proof -
  define P :: "'a heap \<Rightarrow> addr option \<Rightarrow> addr option \<Rightarrow> error + bool \<Rightarrow> bool"
    where "P = (\<lambda>s d n r. r = Inr False \<longrightarrow> (\<forall>t. n = Some t \<longrightarrow> (\<exists>as. path s d as \<and> t \<notin> set as)))"
  have step: "P s d n r"
    if ih: "\<And>s d n y. f s d n = Some y \<Longrightarrow> P s d n y"
      and eq: "(case d of None \<Rightarrow> Some (Inr (d = n))
        | Some a \<Rightarrow>
            if d \<noteq> n
            then (case s a of None \<Rightarrow> Some (Inl MemFault)
                  | Some nd \<Rightarrow> f s (parent nd) n)
            else Some (Inr (d = n))) = Some r"
    for f :: "'a heap \<Rightarrow> addr option \<Rightarrow> addr option \<Rightarrow> (error + bool) option" and s d n r
    unfolding P_def
  proof (intro allI impI)
    fix t assume r: "r = Inr False" and n: "n = Some t"
    show "\<exists>as. path s d as \<and> t \<notin> set as"
    proof (cases d)
      case None
      then have "path s d [] \<and> t \<notin> set []" by simp
      then show ?thesis ..
    next
      case (Some a)
      with eq r n have ne: "a \<noteq> t" by (auto split: if_splits)
      with eq r n Some obtain nd where sa: "s a = Some nd"
        and rec: "f s (parent nd) n = Some (Inr False)"
        by (auto split: option.splits)
      from ih [OF rec] n obtain as where "path s (parent nd) as" "t \<notin> set as"
        by (auto simp: P_def)
      with Some sa ne have "path s d (a # as) \<and> t \<notin> set (a # as)" by simp
      then show ?thesis ..
    qed
  qed
  have "P s d (Some t) (Inr False)"
    by (rule tree_is_descendant_of.raw_induct [where P = P, OF step assms])
  then show ?thesis by (simp add: P_def)
qed

lemma descendant_true_path:
  assumes "tree_is_descendant_of s (Some a) (Some t) = Some (Inr True)"
    and "path s x as" and "a \<in> set as"
  shows "t \<in> set as"
proof -
  define P :: "'a heap \<Rightarrow> addr option \<Rightarrow> addr option \<Rightarrow> error + bool \<Rightarrow> bool"
    where "P = (\<lambda>s d n r. r = Inr True \<longrightarrow> (\<forall>t. n = Some t \<longrightarrow>
            (\<exists>a. d = Some a \<and> (\<forall>x as. path s x as \<and> a \<in> set as \<longrightarrow> t \<in> set as))))"
  have step: "P s d n r"
    if ih: "\<And>s d n y. f s d n = Some y \<Longrightarrow> P s d n y"
      and eq: "(case d of None \<Rightarrow> Some (Inr (d = n))
        | Some a \<Rightarrow>
            if d \<noteq> n
            then (case s a of None \<Rightarrow> Some (Inl MemFault)
                  | Some nd \<Rightarrow> f s (parent nd) n)
            else Some (Inr (d = n))) = Some r"
    for f :: "'a heap \<Rightarrow> addr option \<Rightarrow> addr option \<Rightarrow> (error + bool) option" and s d n r
    unfolding P_def
  proof (intro allI impI)
    fix t assume r: "r = Inr True" and n: "n = Some t"
    from eq r n obtain a where d: "d = Some a" by (cases d) auto
    show "\<exists>a. d = Some a \<and> (\<forall>x as. path s x as \<and> a \<in> set as \<longrightarrow> t \<in> set as)"
    proof (cases "a = t")
      case True
      with d show ?thesis by simp
    next
      case False
      with eq r n d obtain nd where sa: "s a = Some nd"
        and rec: "f s (parent nd) n = Some (Inr True)"
        by (auto split: option.splits)
      from ih [OF rec] n obtain b where b: "parent nd = Some b"
        and c: "\<forall>x as. path s x as \<and> b \<in> set as \<longrightarrow> t \<in> set as"
        by (auto simp: P_def)
      have "t \<in> set as" if "path s x as" "a \<in> set as" for x as
        using path_closed [OF that sa b] that(1) c by blast
      with d show ?thesis by blast
    qed
  qed
  have "P s (Some a) (Some t) (Inr True)"
    by (rule tree_is_descendant_of.raw_induct [where P = P, OF step assms(1)])
  with assms(2,3) show ?thesis by (auto simp: P_def)
qed

lemma grow_true:
  assumes "s p = Some pn" and "rk \<or> sz \<le> alloced pn"
  shows "\<exists>s1 pn1. tree_children_grow_min_size rk p sz s = Inr (True, s1) \<and> s1 p = Some pn1
           \<and> sz \<le> alloced pn1 \<and> outDegree pn1 = outDegree pn \<and> parent pn1 = parent pn
           \<and> (\<forall>a. a \<noteq> p \<longrightarrow> s1 a = s a)"
  using assms by (auto simp: tree_children_grow_min_size_def)

lemma unat_succ: "(x :: uint) + 1 \<noteq> 0 \<Longrightarrow> unat (x + 1) = Suc (unat x)"
  using unatSuc [of x] by (simp add: add.commute)

lemma link_last_ok:
  assumes "s p = Some pn" and "unat (outDegree pn) < unat (alloced pn)"
    and "length (children pn) = unat (alloced pn)" and "s t = Some tn" and "t \<noteq> p"
  shows "\<exists>s2. link_last p t s = Inr s2"
  using assms by (simp add: link_last_def set_child_at_def)

lemma detach_last_kids_live:
  assumes k: "kids_live s" and sp: "s p = Some pn" and d: "unat d < unat (outDegree pn)"
  shows "kids_live (s(p \<mapsto> pn\<lparr>children := (children pn)[unat d := x], outDegree := d\<rparr>))"
  unfolding kids_live_def
proof (intro allI impI)
  let ?s' = "s(p \<mapsto> pn\<lparr>children := (children pn)[unat d := x], outDegree := d\<rparr>)"
  fix b bn
  assume sb: "?s' b = Some bn"
  have live: "\<exists>cn. ?s' c = Some cn" if "s c = Some cn0" for c cn0
    using that by simp
  show "length (children bn) = unat (alloced bn) \<and> unat (outDegree bn) \<le> unat (alloced bn)
        \<and> (\<forall>k < unat (outDegree bn). \<exists>c cn. children bn ! k = Some c \<and> ?s' c = Some cn)"
  proof (cases "b = p")
    case True
    with sb have bn: "bn = pn\<lparr>children := (children pn)[unat d := x], outDegree := d\<rparr>" by simp
    note n = kids_live_node [OF k sp]
    have "\<exists>c cn. children bn ! j = Some c \<and> ?s' c = Some cn" if "j < unat (outDegree bn)" for j
    proof -
      from that bn have jd: "j < unat d" by simp
      with d have "j < unat (outDegree pn)" by simp
      from n(3) [OF this] obtain c cn0 where "children pn ! j = Some c" "s c = Some cn0" by blast
      with jd bn live [of c cn0] show ?thesis by auto
    qed
    with n(1,2) d bn show ?thesis by simp
  next
    case False
    with sb have sb0: "s b = Some bn" by simp
    note n = kids_live_node [OF k sb0]
    have "\<exists>c cn. children bn ! j = Some c \<and> ?s' c = Some cn" if "j < unat (outDegree bn)" for j
    proof -
      from n(3) [OF that] obtain c cn0 where "children bn ! j = Some c" "s c = Some cn0" by blast
      with live [of c cn0] show ?thesis by auto
    qed
    with n(1,2) show ?thesis by simp
  qed
qed

lemma round_trip_path:
  assumes w: "wf_heap s" and sp: "s p = Some pn" and st: "s t = Some tn" and tr: "parent tn = None"
    and pa: "path s (Some p) as" and ta: "t \<notin> set as" and od: "outDegree pn + 1 \<noteq> 0"
    and ok: "rk \<or> outDegree pn + 1 \<le> alloced pn"
  shows "\<exists>s1 s2 tn1. tree_add_subtree rk p (Some t) s = Some (Inr (None, s1))
      \<and> s1 t = Some tn1 \<and> parent tn1 = Some p
      \<and> tree_remove t s1 = Some (Inr (t, s2))
      \<and> (\<forall>a. a \<notin> set as \<longrightarrow> s2 a = s a)"
proof -
  from path_head [OF pa] ta have tp: "t \<noteq> p" by auto
  from wfg_root [OF wf_heap_wfg [OF w, of p] st] tr have i0: "idx tn = 0" by simp
  have rm0: "tree_remove t s = Some (Inr (t, s))" by (rule tree_remove_root [of s t tn, OF st tr])
  from grow_true [of s p pn rk "outDegree pn + 1", OF sp ok] obtain s1 pn1 where
    g: "tree_children_grow_min_size rk p (outDegree pn + 1) s = Inr (True, s1)"
    and s1p: "s1 p = Some pn1" and le: "outDegree pn + 1 \<le> alloced pn1"
    and od1: "outDegree pn1 = outDegree pn" and pp1: "parent pn1 = parent pn"
    and fr1: "\<forall>a. a \<noteq> p \<longrightarrow> s1 a = s a" by blast
  from grow_wf [OF w g] have w1: "wf_heap s1" by simp
  from od have suc: "unat (outDegree pn + 1) = Suc (unat (outDegree pn))" by (rule unat_succ)
  with le od1 have room: "unat (outDegree pn1) < unat (alloced pn1)"
    by (simp add: word_le_nat_alt)
  from fr1 tp st have s1t: "s1 t = Some tn" by simp
  note n1 = wf_heap_node [OF w1 s1p]
  from link_last_ok [of s1 p pn1 t tn, OF s1p room n1(1) s1t tp] obtain s2 where l: "link_last p t s1 = Inr s2" ..
  define pn2 where "pn2 = pn1\<lparr>children := (children pn1)[unat (outDegree pn1) := Some t],
                       outDegree := outDegree pn1 + 1\<rparr>"
  define tn3 where "tn3 = tn\<lparr>parent := Some p, idx := outDegree pn1\<rparr>"
  from link_last_result [OF l tp] s1p s1t
  have s2: "s2 = s1(p \<mapsto> pn2, t \<mapsto> tn3)" unfolding pn2_def tn3_def by auto
  have w2: "wf_heap s2" by (rule link_last_wf [OF w1 l tp]) (use s1t tr in simp)
  have p2: "path s2 (Some p) as"
  proof (rule path_cong [OF pa])
    fix b nd assume b: "b \<in> set as" "s b = Some nd"
    with ta have bt: "b \<noteq> t" by auto
    show "\<exists>nd'. s2 b = Some nd' \<and> parent nd' = parent nd"
    proof (cases "b = p")
      case True
      with b sp pp1 bt show ?thesis by (simp add: s2 pn2_def)
    next
      case False
      with b bt fr1 show ?thesis by (simp add: s2)
    qed
  qed
  from tree_update_height_total [OF wf_heap_kids_live [OF w2] p2] obtain s3 where
    u: "tree_update_height (Some p) s2 = Some (Inr s3)" and h23: "hgt_only s2 s3"
    and f3: "\<forall>a. a \<notin> set as \<longrightarrow> s3 a = s2 a" by blast
  have add: "tree_add_subtree rk p (Some t) s = Some (Inr (None, s3))"
    by (simp add: tree_add_subtree_def st tr rm0 sp g l u)
  have w3: "wf_heap s3" by (rule tree_update_height_wf [OF w2 u])
  from f3 ta have s3t: "s3 t = Some tn3" by (simp add: s2)
  have "s2 p = Some pn2" using tp by (simp add: s2)
  with h23 obtain h where s3p: "s3 p = Some (pn2\<lparr>hgt := h\<rparr>)"
    unfolding hgt_only_def by (auto dest!: spec [of _ p])
  define pn3 where "pn3 = pn2\<lparr>hgt := h\<rparr>"
  from s3p have s3p': "s3 p = Some pn3" by (simp add: pn3_def)
  note n3 = wf_heap_node [OF w3 s3p']
  have d3: "outDegree pn3 = outDegree pn + 1" by (simp add: pn3_def pn2_def od1)
  have a3: "alloced pn3 = alloced pn1" by (simp add: pn3_def pn2_def)
  have c3: "children pn3 = (children pn1)[unat (outDegree pn) := Some t]"
    by (simp add: pn3_def pn2_def od1)
  have lt3: "unat (outDegree pn) < unat (outDegree pn3)" by (simp add: d3 suc)
  from room od1 n1(1) have at3: "children pn3 ! unat (outDegree pn) = Some t"
    by (simp add: c3)
  have nodup: "\<forall>k. unat (0 :: uint) \<le> k \<and> k < unat (outDegree pn) \<longrightarrow> children pn3 ! k \<noteq> Some t"
  proof (intro allI impI)
    fix k assume k: "unat (0 :: uint) \<le> k \<and> k < unat (outDegree pn)"
    with lt3 have "k < unat (outDegree pn3)" by simp
    from n3(3) [OF this] obtain c cn where c: "children pn3 ! k = Some c" "s3 c = Some cn"
      "unat (idx cn) = k" by blast
    show "children pn3 ! k \<noteq> Some t"
    proof
      assume "children pn3 ! k = Some t"
      with c s3t have "unat (idx tn3) = k" by simp
      with k show False by (simp add: tn3_def od1)
    qed
  qed
  have fc: "find_child pn3 t 0 = Inr (outDegree pn)"
    by (rule find_child_at [OF lt3 n3(2,1) at3 nodup]) simp
  define pn4 where "pn4 = pn3\<lparr>children := (children pn3)[unat (outDegree pn) := None]\<rparr>"
  from lt3 n3(1,2) have sc: "set_child_at pn3 (outDegree pn) None = Inr pn4"
    by (simp add: set_child_at_def pn4_def)
  have rs: "remove_shift (s3(p \<mapsto> pn4)) p (outDegree pn) = Inr (s3(p \<mapsto> pn4))"
    by (rule remove_shift_last [of _ _ pn4]) (simp_all add: pn4_def d3)
  define s4 where "s4 = s3(p \<mapsto> pn4\<lparr>outDegree := outDegree pn\<rparr>)"
  have d4: "outDegree pn4 - 1 = outDegree pn" by (simp add: pn4_def d3)
  have rc: "tree_node_remove_child t s3 = Inr s4"
    by (simp add: tree_node_remove_child_def s3t tn3_def s3p' fc sc rs s4_def d4)
  from tp s3t have s4t: "s4 t = Some tn3" by (simp add: s4_def)
  have k4: "kids_live s4"
    unfolding s4_def pn4_def
    using detach_last_kids_live [OF wf_heap_kids_live [OF w3] s3p' lt3, of None] by simp
  have p3: "path s3 (Some p) as"
    by (rule path_cong [OF p2]) (rule hgt_only_parents [OF h23])
  have p4: "path s4 (Some p) as"
  proof (rule path_cong [OF p3])
    fix b nd assume b: "b \<in> set as" "s3 b = Some nd"
    show "\<exists>nd'. s4 b = Some nd' \<and> parent nd' = parent nd"
      using b(2) s3p' by (cases "b = p") (simp_all add: s4_def pn4_def)
  qed
  from tree_update_height_total [OF k4 p4] obtain s5 where
    u5: "tree_update_height (Some p) s4 = Some (Inr s5)"
    and f5: "\<forall>a. a \<notin> set as \<longrightarrow> s5 a = s4 a" by blast
  from f5 ta s4t have s5t: "s5 t = Some tn3" by simp
  have orig: "tn3\<lparr>parent := None, idx := 0\<rparr> = tn"
    using tr i0 by (cases tn) (simp add: tn3_def)
  have rm: "tree_remove t s3 = Some (Inr (t, s5(t \<mapsto> tn)))"
    using orig by (simp add: tree_remove_def s3t rc s4t u5 s5t tn3_def)
  have frame: "(s5(t \<mapsto> tn)) a = s a" if "a \<notin> set as" for a
  proof (cases "a = t")
    case True
    with st show ?thesis by simp
  next
    case False
    from that path_head [OF pa] have ap: "a \<noteq> p" by auto
    from False have "(s5(t \<mapsto> tn)) a = s5 a" by simp
    also from f5 that have "\<dots> = s4 a" by simp
    also from ap have "\<dots> = s3 a" by (simp add: s4_def)
    also from f3 that have "\<dots> = s2 a" by simp
    also from ap False have "\<dots> = s1 a" by (simp add: s2)
    also from fr1 ap have "\<dots> = s a" by simp
    finally show ?thesis .
  qed
  have "parent tn3 = Some p" by (simp add: tn3_def)
  with add s3t rm frame show ?thesis by blast
qed

lemma round_trip_no_room:
  assumes sp: "s p = Some pn" and st: "s t = Some tn" and tr: "parent tn = None"
    and no: "\<not> (rk \<or> outDegree pn + 1 \<le> alloced pn)"
  shows "tree_add_subtree rk p (Some t) s = Some (Inr (Some t, s))
      \<and> tree_remove t s = Some (Inr (t, s))"
proof -
  have rm0: "tree_remove t s = Some (Inr (t, s))" by (rule tree_remove_root [of s t tn, OF st tr])
  from sp no have g: "tree_children_grow_min_size rk p (outDegree pn + 1) s = Inr (False, s)"
    by (simp add: tree_children_grow_min_size_def)
  have "tree_add_subtree rk p (Some t) s = Some (Inr (Some t, s))"
    by (simp add: tree_add_subtree_def st tr rm0 sp g)
  with rm0 show ?thesis by simp
qed

lemma fringe_nonempty: "fringe U \<noteq> []"
proof (induction U)
  case (ANode a ts)
  show ?case
  proof (cases ts)
    case Nil
    then show ?thesis by simp
  next
    case (Cons u us)
    with ANode [of u] show ?thesis by simp
  qed
qed

lemma reprD:
  assumes "repr s (ANode a ts)"
  obtains nd where "s a = Some nd" "unat (outDegree nd) = length ts"
    "length ts \<le> unat (alloced nd)" "length (children nd) = unat (alloced nd)"
    "\<forall>k < length ts. children nd ! k = Some (root_of (ts ! k))"
    "\<forall>k < length ts. \<exists>cn. s (root_of (ts ! k)) = Some cn \<and> parent cn = Some a
        \<and> unat (idx cn) = k"
    "\<forall>u \<in> set ts. repr s u"
proof -
  from assms obtain nd where sa: "s a = Some nd" by (auto split: option.splits)
  with assms have x: "unat (outDegree nd) = length ts" "length ts \<le> unat (alloced nd)"
    "length (children nd) = unat (alloced nd)"
    and k: "\<forall>k < length ts. children nd ! k = Some (root_of (ts ! k))
                \<and> (case s (root_of (ts ! k)) of None \<Rightarrow> False
                    | Some cn \<Rightarrow> parent cn = Some a \<and> unat (idx cn) = k)"
    and u: "\<forall>u \<in> set ts. repr s u" by simp_all
  from k have k1: "\<forall>k < length ts. children nd ! k = Some (root_of (ts ! k))" by blast
  have k2: "\<forall>k < length ts. \<exists>cn. s (root_of (ts ! k)) = Some cn \<and> parent cn = Some a
      \<and> unat (idx cn) = k"
  proof (intro allI impI)
    fix k assume "k < length ts"
    with k have "case s (root_of (ts ! k)) of None \<Rightarrow> False
                    | Some cn \<Rightarrow> parent cn = Some a \<and> unat (idx cn) = k" by blast
    then show "\<exists>cn. s (root_of (ts ! k)) = Some cn \<and> parent cn = Some a \<and> unat (idx cn) = k"
      by (cases "s (root_of (ts ! k))") auto
  qed
  show thesis by (rule that [OF sa x k1 k2 u])
qed

lemma hd_fringe:
  "ts \<noteq> [] \<Longrightarrow> hd (fringe (ANode a ts)) = hd (fringe (ts ! 0))"
  by (cases ts) (simp_all add: fringe_nonempty)

lemma first_child_at:
  assumes "unat (outDegree nd) = length ts" and "length ts \<le> unat (alloced nd)"
    and "length (children nd) = unat (alloced nd)" and "ts \<noteq> []"
  shows "outDegree nd > 0" and "child_at nd 0 = Inr (children nd ! 0)"
proof -
  from assms(1,4) have "0 < unat (outDegree nd)" by simp
  then show "outDegree nd > 0" by (simp add: word_less_nat_alt)
  from assms(2,4) have "0 < unat (alloced nd)" by (cases ts) simp_all
  with assms(3) show "child_at nd 0 = Inr (children nd ! 0)" by (simp add: child_at_def)
qed

lemma leaf_degree:
  assumes "unat (outDegree nd) = length ts" and "ts = []"
  shows "\<not> outDegree nd > 0" and "outDegree nd = 0"
  using assms by (simp_all add: word_less_nat_alt unat_eq_0)

lemma leaves_first_loop_fringe:
  assumes "repr s U"
  shows "leaves_first_loop s (Some (root_of U)) cc = Some (Inr (Some (hd (fringe U))))"
  using assms
proof (induction U arbitrary: cc)
  case (ANode a ts)
  from ANode.prems obtain nd where n: "s a = Some nd" "unat (outDegree nd) = length ts"
    "length ts \<le> unat (alloced nd)" "length (children nd) = unat (alloced nd)"
    and k1: "\<forall>k < length ts. children nd ! k = Some (root_of (ts ! k))"
    and k2: "\<forall>k < length ts. \<exists>cn. s (root_of (ts ! k)) = Some cn \<and> parent cn = Some a
        \<and> unat (idx cn) = k"
    and u: "\<forall>u \<in> set ts. repr s u" by (rule reprD)
  show ?case
  proof (cases "ts = []")
    case True
    have "leaves_first_loop s None (Some a) = Some (Inr (Some a))"
      by (subst leaves_first_loop.simps) simp
    with n(1) leaf_degree(1) [OF n(2) True] True show ?thesis
      by (subst leaves_first_loop.simps) simp
  next
    case False
    then have m: "ts ! 0 \<in> set ts" "0 < length ts" by simp_all
    note f = first_child_at [OF n(2,3,4) False]
    from ANode.IH [OF m(1) u [rule_format, OF m(1)], of "Some a"]
    have "leaves_first_loop s (Some (root_of (ts ! 0))) (Some a)
        = Some (Inr (Some (hd (fringe (ts ! 0)))))" .
    with n(1) f k1 [rule_format, OF m(2)] hd_fringe [OF False, of a] show ?thesis
      by (subst leaves_first_loop.simps) simp
  qed
qed

lemma down_first_fringe:
  assumes "repr s U"
  shows "down_first s (Some (root_of U)) = Some (Inr (Some (hd (fringe U))))"
  using assms
proof (induction U)
  case (ANode a ts)
  from ANode.prems obtain nd where n: "s a = Some nd" "unat (outDegree nd) = length ts"
    "length ts \<le> unat (alloced nd)" "length (children nd) = unat (alloced nd)"
    and k1: "\<forall>k < length ts. children nd ! k = Some (root_of (ts ! k))"
    and k2: "\<forall>k < length ts. \<exists>cn. s (root_of (ts ! k)) = Some cn \<and> parent cn = Some a
        \<and> unat (idx cn) = k"
    and u: "\<forall>u \<in> set ts. repr s u" by (rule reprD)
  show ?case
  proof (cases "ts = []")
    case True
    with n(1) leaf_degree(1) [OF n(2) True] show ?thesis
      by (subst down_first.simps) (simp add: load_def)
  next
    case False
    then have m: "ts ! 0 \<in> set ts" "0 < length ts" by simp_all
    note f = first_child_at [OF n(2,3,4) False]
    from ANode.IH [OF m(1) u [rule_format, OF m(1)]]
    have "down_first s (Some (root_of (ts ! 0))) = Some (Inr (Some (hd (fringe (ts ! 0)))))" .
    with n(1) f k1 [rule_format, OF m(2)] hd_fringe [OF False, of a] show ?thesis
      by (subst down_first.simps) (simp add: load_def)
  qed
qed

lemma fringe_is_leaves:
  assumes "repr s U"
  shows "fringe U = filter (\<lambda>a. tree_is_leaf s a = Inr True) (nodes U)"
  using assms
proof (induction U)
  case (ANode a ts)
  from ANode.prems obtain nd where n: "s a = Some nd" "unat (outDegree nd) = length ts"
    "length ts \<le> unat (alloced nd)" "length (children nd) = unat (alloced nd)"
    and k1: "\<forall>k < length ts. children nd ! k = Some (root_of (ts ! k))"
    and k2: "\<forall>k < length ts. \<exists>cn. s (root_of (ts ! k)) = Some cn \<and> parent cn = Some a
        \<and> unat (idx cn) = k"
    and u: "\<forall>u \<in> set ts. repr s u" by (rule reprD)
  have rec: "concat (map fringe ts)
      = filter (\<lambda>a. tree_is_leaf s a = Inr True) (concat (map nodes ts))"
    using ANode.IH u by (simp add: filter_concat cong: map_cong)
  show ?case
  proof (cases "ts = []")
    case True
    with n leaf_degree(2) [OF n(2) True] show ?thesis
      by (simp add: tree_is_leaf_def tree_out_degree_def)
  next
    case False
    with n(2) have "outDegree nd \<noteq> 0" by (auto simp: unat_eq_0)
    with n(1) False rec show ?thesis
      by (simp add: tree_is_leaf_def tree_out_degree_def)
  qed
qed

lemma last_child_test:
  assumes "unat (outDegree rn) = n" and "unat (idx cn) = k" and "k < n"
  shows "(idx cn < outDegree rn - 1) = (Suc k < n)"
proof -
  from assms have "outDegree rn \<noteq> 0" by (auto simp: unat_eq_0)
  then have "unat (outDegree rn - 1) = unat (outDegree rn) - 1" by (rule unat_minus_one)
  with assms show ?thesis by (auto simp: word_less_nat_alt)
qed

lemma leaves_up_child:
  assumes "s r = Some rn" and "unat (outDegree rn) = n" and "s c = Some cn"
    and "parent cn = Some r" and "unat (idx cn) = k" and "k < n" and "c \<noteq> t"
  shows "leaves_up s (Some t) (Some c)
      = (if Suc k < n then Some (Inr (Some c)) else leaves_up s (Some t) (Some r))"
  using assms(1,3,4,7) last_child_test [OF assms(2,5,6)]
  by (subst leaves_up.simps) simp

lemma leaves_succ_child_last:
  assumes "s r = Some rn" and "unat (outDegree rn) = n" and "s c = Some cn"
    and "parent cn = Some r" and "unat (idx cn) = k" and "k < n" and "c \<noteq> t"
    and "\<not> Suc k < n"
  shows "leaves_succ s (Some t) (Some c) = leaves_succ s (Some t) (Some r)"
  using leaves_up_child [OF assms(1-7)] assms(8) by (simp add: leaves_succ_def)

lemma leaves_succ_child_next:
  assumes "s r = Some rn" and "unat (outDegree rn) = n" and "s c = Some cn"
    and "parent cn = Some r" and "unat (idx cn) = k" and "k < n" and "c \<noteq> t"
    and "Suc k < n" and "n \<le> unat (alloced rn)" and "length (children rn) = unat (alloced rn)"
  shows "leaves_succ s (Some t) (Some c) = down_first s (children rn ! Suc k)"
proof -
  from assms(2,5,6) have "idx cn < outDegree rn" by (simp add: word_less_nat_alt)
  then have "unat (idx cn + 1) = Suc (unat (idx cn))" by (rule unat_inc)
  with assms(5,8,9,10) have "child_at rn (idx cn + 1) = Inr (children rn ! Suc k)"
    by (simp add: child_at_def)
  with assms(1,3,4) have "right_sibling s (Some c) = Inr (children rn ! Suc k)"
    by (simp add: right_sibling_def load_def)
  with leaves_up_child [OF assms(1-7)] assms(7,8) show ?thesis
    by (simp add: leaves_succ_def)
qed

lemma linked_append:
  assumes "linked nx xs (Some (Inr (Some (hd ys))))" and "linked nx ys e"
    and "xs \<noteq> []" and "ys \<noteq> []"
  shows "linked nx (xs @ ys) e"
  using assms
proof (induction xs)
  case Nil
  then show ?case by simp
next
  case (Cons x xs)
  from Cons.prems(4) obtain y ys' where ys: "ys = y # ys'" by (cases ys) auto
  show ?case
  proof (cases xs)
    case Nil
    with Cons.prems(1,2) ys show ?thesis by simp
  next
    case (Cons x' xs')
    with Cons.prems(1) have a: "nx x = Some (Inr (Some x'))"
      and b: "linked nx xs (Some (Inr (Some (hd ys))))" by simp_all
    from Cons have "xs \<noteq> []" by simp
    from Cons.IH [OF b Cons.prems(2) this Cons.prems(4)] a Cons show ?thesis by simp
  qed
qed

lemma nodes_root: "root_of U \<in> set (nodes U)"
  by (cases U) simp

lemma linked_fringe:
  assumes "repr s U" and "t \<notin> set (tl (nodes U))"
  shows "linked (\<lambda>x. leaves_succ s (Some t) (Some x)) (fringe U)
           (leaves_succ s (Some t) (Some (root_of U)))"
  using assms
proof (induction U)
  case (ANode a ts)
  let ?nx = "\<lambda>x. leaves_succ s (Some t) (Some x)"
  from ANode.prems(1) obtain nd where n: "s a = Some nd" "unat (outDegree nd) = length ts"
    "length ts \<le> unat (alloced nd)" "length (children nd) = unat (alloced nd)"
    and k1: "\<forall>k < length ts. children nd ! k = Some (root_of (ts ! k))"
    and k2: "\<forall>k < length ts. \<exists>cn. s (root_of (ts ! k)) = Some cn \<and> parent cn = Some a
        \<and> unat (idx cn) = k"
    and u: "\<forall>u \<in> set ts. repr s u" by (rule reprD)
  show ?case
  proof (cases "ts = []")
    case True
    then show ?thesis by simp
  next
    case False
    have sub: "linked ?nx (fringe (ts ! k)) (?nx (root_of (ts ! k)))"
      and ne: "root_of (ts ! k) \<noteq> t" if "k < length ts" for k
    proof -
      from that have m: "ts ! k \<in> set ts" by simp
      with ANode.prems(2) have "t \<notin> set (nodes (ts ! k))" by auto
      then have "t \<notin> set (tl (nodes (ts ! k)))" by (cases "ts ! k") auto
      from ANode.IH [OF m u [rule_format, OF m] this]
      show "linked ?nx (fringe (ts ! k)) (?nx (root_of (ts ! k)))" .
      from \<open>t \<notin> set (nodes (ts ! k))\<close> nodes_root [of "ts ! k"]
      show "root_of (ts ! k) \<noteq> t" by auto
    qed
    have step: "?nx (root_of (ts ! k))
        = (if Suc k < length ts then Some (Inr (Some (hd (fringe (ts ! Suc k))))) else ?nx a)"
      if "k < length ts" for k
    proof -
      from k2 that obtain cn where c: "s (root_of (ts ! k)) = Some cn" "parent cn = Some a"
        "unat (idx cn) = k" by blast
      show ?thesis
      proof (cases "Suc k < length ts")
        case True
        then have m: "ts ! Suc k \<in> set ts" by simp
        from leaves_succ_child_next [OF n(1,2) c that ne [OF that] True n(3,4)]
          k1 [rule_format, OF True] down_first_fringe [OF u [rule_format, OF m]] True
        show ?thesis by simp
      next
        case False
        from leaves_succ_child_last [OF n(1,2) c that ne [OF that] False] False
        show ?thesis by simp
      qed
    qed
    have inner: "\<forall>k. length ts - Suc k = d \<longrightarrow> k < length ts \<longrightarrow>
        linked ?nx (concat (map fringe (drop k ts))) (?nx a)" for d
    proof (induction d)
      case 0
      show ?case
      proof (intro allI impI)
        fix k assume k: "length ts - Suc k = 0" "k < length ts"
        then have "drop k ts = [ts ! k]"
          by (metis Cons_nth_drop_Suc drop_all le_Suc_eq diff_is_0_eq not_less_eq_eq)
        with sub [OF k(2)] step [OF k(2)] k
        show "linked ?nx (concat (map fringe (drop k ts))) (?nx a)" by simp
      qed
    next
      case (Suc d)
      show ?case
      proof (intro allI impI)
        fix k assume k: "length ts - Suc k = Suc d" "k < length ts"
        then have k': "Suc k < length ts" "length ts - Suc (Suc k) = d" by simp_all
        from k(2) have d1: "drop k ts = ts ! k # drop (Suc k) ts"
          by (simp add: Cons_nth_drop_Suc)
        from k'(1) have d2: "drop (Suc k) ts = ts ! Suc k # drop (Suc (Suc k)) ts"
          by (simp add: Cons_nth_drop_Suc)
        from Suc.IH k' have r: "linked ?nx (concat (map fringe (drop (Suc k) ts))) (?nx a)"
          by blast
        have h: "hd (concat (map fringe (drop (Suc k) ts))) = hd (fringe (ts ! Suc k))"
          by (simp add: d2 fringe_nonempty)
        have ne2: "concat (map fringe (drop (Suc k) ts)) \<noteq> []"
          by (simp add: d2 fringe_nonempty)
        from sub [OF k(2)] step [OF k(2)] k'(1) h
        have l: "linked ?nx (fringe (ts ! k))
            (Some (Inr (Some (hd (concat (map fringe (drop (Suc k) ts)))))))" by simp
        from linked_append [OF l r fringe_nonempty ne2]
        show "linked ?nx (concat (map fringe (drop k ts))) (?nx a)" by (simp add: d1)
      qed
    qed
    from False have "0 < length ts" by simp
    with inner [of "length ts - Suc 0"] have "linked ?nx (concat (map fringe (drop 0 ts))) (?nx a)"
      by blast
    with False show ?thesis by simp
  qed
qed

lemma leaves_succ_root: "leaves_succ s (Some t) (Some t) = Some (Inr None)"
proof -
  have "leaves_up s (Some t) (Some t) = Some (Inr (Some t))"
    by (subst leaves_up.simps) simp
  then show ?thesis by (simp add: leaves_succ_def)
qed

lemma leaves_drain_linked:
  assumes "linked (\<lambda>x. leaves_succ s (Some t) (Some x)) xs (Some (Inr None))"
    and "xs \<noteq> []" and "it_t it = Some t" and "it_next it = Some (hd xs)"
  shows "leaves_drain it s = Some (Inr (map Some xs))"
  using assms
proof (induction xs arbitrary: it)
  case Nil
  then show ?case by simp
next
  case (Cons x xs)
  show ?case
  proof (cases xs)
    case Nil
    with Cons.prems(1) have nx: "leaves_succ s (Some t) (Some x) = Some (Inr None)" by simp
    let ?it' = "it\<lparr>it_prev := it_current it, it_current := it_next it, it_next := None\<rparr>"
    from nx Cons.prems(3,4) have a: "tree_iter_leaves_next it s = Some (Inr (Some x, ?it'))"
      by (simp add: tree_iter_leaves_next_def)
    have b: "leaves_drain ?it' s = Some (Inr [])"
      by (subst leaves_drain.simps) (simp add: tree_iter_has_next_def)
    from Cons.prems(4) a b Nil show ?thesis
      by (subst leaves_drain.simps) (simp add: tree_iter_has_next_def)
  next
    case (Cons y ys)
    with Cons.prems(1) have nx: "leaves_succ s (Some t) (Some x) = Some (Inr (Some y))"
      and l: "linked (\<lambda>x. leaves_succ s (Some t) (Some x)) xs (Some (Inr None))" by simp_all
    let ?it' = "it\<lparr>it_prev := it_current it, it_current := it_next it, it_next := Some y\<rparr>"
    from nx Cons.prems(3,4) have a: "tree_iter_leaves_next it s = Some (Inr (Some x, ?it'))"
      by (simp add: tree_iter_leaves_next_def)
    from Cons have xne: "xs \<noteq> []" by simp
    have b: "leaves_drain ?it' s = Some (Inr (map Some xs))"
      by (rule Cons.IH [OF l xne]) (use Cons.prems(3) Cons in simp_all)
    from Cons.prems(4) a b show ?thesis
      by (subst leaves_drain.simps) (simp add: tree_iter_has_next_def)
  qed
qed

lemma repr_unique:
  assumes "repr s U" and "repr s U'" and "root_of U = root_of U'"
  shows "U = U'"
  using assms
proof (induction U arbitrary: U')
  case (ANode a ts)
  obtain a' ts' where U': "U' = ANode a' ts'" by (cases U')
  with ANode.prems(3) have a': "a' = a" by simp
  from ANode.prems(1) obtain nd where n: "s a = Some nd" "unat (outDegree nd) = length ts"
    "length ts \<le> unat (alloced nd)" "length (children nd) = unat (alloced nd)"
    and k1: "\<forall>k < length ts. children nd ! k = Some (root_of (ts ! k))"
    and k2: "\<forall>k < length ts. \<exists>cn. s (root_of (ts ! k)) = Some cn \<and> parent cn = Some a
        \<and> unat (idx cn) = k"
    and u: "\<forall>u \<in> set ts. repr s u" by (rule reprD)
  from ANode.prems(2) have "repr s (ANode a ts')" by (simp only: U' a')
  then obtain nd' where n': "s a = Some nd'" "unat (outDegree nd') = length ts'"
    "length ts' \<le> unat (alloced nd')" "length (children nd') = unat (alloced nd')"
    and k1': "\<forall>k < length ts'. children nd' ! k = Some (root_of (ts' ! k))"
    and k2': "\<forall>k < length ts'. \<exists>cn. s (root_of (ts' ! k)) = Some cn \<and> parent cn = Some a
        \<and> unat (idx cn) = k"
    and u': "\<forall>u \<in> set ts'. repr s u" by (rule reprD)
  from n(1) n'(1) have nd: "nd' = nd" by simp
  with n(2) n'(2) have len: "length ts' = length ts" by simp
  have "ts ! k = ts' ! k" if "k < length ts" for k
  proof -
    from that len have m: "ts ! k \<in> set ts" "ts' ! k \<in> set ts'" by simp_all
    from k1 k1' that len nd have "root_of (ts ! k) = root_of (ts' ! k)" by simp
    from ANode.IH [OF m(1) u [rule_format, OF m(1)] u' [rule_format, OF m(2)] this]
    show ?thesis .
  qed
  with len have "ts = ts'" by (auto intro: nth_equalityI)
  with U' a' show ?case by simp
qed

lemma size_subtree: "u \<in> set ts \<Longrightarrow> size u < size (ANode a ts)"
  by (simp add: less_Suc_eq_le size_list_estimation')

lemma repr_subshape:
  assumes "repr s V" and "x \<in> set (nodes V)"
  shows "\<exists>W. repr s W \<and> root_of W = x \<and> size W \<le> size V"
  using assms
proof (induction V)
  case (ANode b us)
  show ?case
  proof (cases "x = b")
    case True
    with ANode.prems(1) have "repr s (ANode b us) \<and> root_of (ANode b us) = x
        \<and> size (ANode b us) \<le> size (ANode b us)" by simp
    then show ?thesis ..
  next
    case False
    with ANode.prems(2) obtain u where m: "u \<in> set us" and x: "x \<in> set (nodes u)" by auto
    from ANode.prems(1) obtain nd where "s b = Some nd" "unat (outDegree nd) = length us"
      "length us \<le> unat (alloced nd)" "length (children nd) = unat (alloced nd)"
      "\<forall>k < length us. children nd ! k = Some (root_of (us ! k))"
      "\<forall>k < length us. \<exists>cn. s (root_of (us ! k)) = Some cn \<and> parent cn = Some b
          \<and> unat (idx cn) = k"
      and u: "\<forall>u \<in> set us. repr s u" by (rule reprD)
    from ANode.IH [OF m u [rule_format, OF m] x] obtain W where
      "repr s W" "root_of W = x" "size W \<le> size u" by blast
    with size_subtree [OF m, of b] have "repr s W \<and> root_of W = x \<and> size W \<le> size (ANode b us)"
      by simp
    then show ?thesis ..
  qed
qed

lemma repr_parent:
  assumes "repr s V" and "x \<in> set (nodes V)" and "x \<noteq> root_of V"
  shows "\<exists>nd y Wy Wx. s x = Some nd \<and> parent nd = Some y \<and> y \<in> set (nodes V)
      \<and> repr s Wy \<and> root_of Wy = y \<and> repr s Wx \<and> root_of Wx = x \<and> size Wx < size Wy"
  using assms
proof (induction V)
  case (ANode b us)
  from ANode.prems(2,3) obtain u where m: "u \<in> set us" and x: "x \<in> set (nodes u)" by auto
  from m obtain k where k: "k < length us" "u = us ! k" by (auto simp: in_set_conv_nth)
  from ANode.prems(1) obtain nd where "s b = Some nd" "unat (outDegree nd) = length us"
    "length us \<le> unat (alloced nd)" "length (children nd) = unat (alloced nd)"
    "\<forall>k < length us. children nd ! k = Some (root_of (us ! k))"
    and k2: "\<forall>k < length us. \<exists>cn. s (root_of (us ! k)) = Some cn \<and> parent cn = Some b
        \<and> unat (idx cn) = k"
    and u: "\<forall>u \<in> set us. repr s u" by (rule reprD)
  show ?case
  proof (cases "x = root_of u")
    case True
    from k2 k obtain cn where "s (root_of u) = Some cn" "parent cn = Some b" by blast
    with True ANode.prems(1) u [rule_format, OF m] size_subtree [OF m, of b]
    have "s x = Some cn \<and> parent cn = Some b \<and> b \<in> set (nodes (ANode b us))
        \<and> repr s (ANode b us) \<and> root_of (ANode b us) = b \<and> repr s u \<and> root_of u = x
        \<and> size u < size (ANode b us)" by simp
    then show ?thesis by blast
  next
    case False
    from ANode.IH [OF m u [rule_format, OF m] x False] obtain nd y Wy Wx where
      a: "s x = Some nd" "parent nd = Some y" "y \<in> set (nodes u)"
        "repr s Wy" "root_of Wy = y" "repr s Wx" "root_of Wx = x" "size Wx < size Wy" by blast
    from a(3) m have "y \<in> set (nodes (ANode b us))" by auto
    with a have "s x = Some nd \<and> parent nd = Some y \<and> y \<in> set (nodes (ANode b us))
        \<and> repr s Wy \<and> root_of Wy = y \<and> repr s Wx \<and> root_of Wx = x \<and> size Wx < size Wy"
      by simp
    then show ?thesis by blast
  qed
qed

lemma distinct_concat_nth:
  assumes "\<And>k. k < length xss \<Longrightarrow> distinct (xss ! k)"
    and "\<And>j k. j < k \<Longrightarrow> k < length xss \<Longrightarrow> set (xss ! j) \<inter> set (xss ! k) = {}"
  shows "distinct (concat xss)"
  using assms
proof (induction xss)
  case Nil
  show ?case by simp
next
  case (Cons xs xss)
  from Cons.prems(1) [of 0] have d: "distinct xs" by simp
  have r: "distinct (concat xss)"
  proof (rule Cons.IH)
    fix k assume "k < length xss"
    with Cons.prems(1) [of "Suc k"] show "distinct (xss ! k)" by simp
  next
    fix j k assume "j < k" "k < length xss"
    with Cons.prems(2) [of "Suc j" "Suc k"] show "set (xss ! j) \<inter> set (xss ! k) = {}" by simp
  qed
  have "set xs \<inter> set ys = {}" if "ys \<in> set xss" for ys
  proof -
    from that obtain k where "k < length xss" "ys = xss ! k" by (auto simp: in_set_conv_nth)
    with Cons.prems(2) [of 0 "Suc k"] show ?thesis by simp
  qed
  with d r show ?case by auto
qed

lemma repr_distinct:
  assumes "repr s T"
  shows "distinct (nodes T)"
  using assms
proof (induction T)
  case (ANode a ts)
  let ?T = "ANode a ts"
  from ANode.prems obtain nd where n: "s a = Some nd" "unat (outDegree nd) = length ts"
    "length ts \<le> unat (alloced nd)" "length (children nd) = unat (alloced nd)"
    and k1: "\<forall>k < length ts. children nd ! k = Some (root_of (ts ! k))"
    and k2: "\<forall>k < length ts. \<exists>cn. s (root_of (ts ! k)) = Some cn \<and> parent cn = Some a
        \<and> unat (idx cn) = k"
    and u: "\<forall>u \<in> set ts. repr s u" by (rule reprD)
  have ru: "repr s (ts ! k)" if "k < length ts" for k
    using u that by simp
  have small: "size W < size ?T"
    if "k < length ts" "x \<in> set (nodes (ts ! k))" "repr s W" "root_of W = x" for k x W
  proof -
    from repr_subshape [OF ru [OF that(1)] that(2)] obtain W' where
      w: "repr s W'" "root_of W' = x" "size W' \<le> size (ts ! k)" by blast
    from repr_unique [OF that(3) w(1)] that(4) w(2) have "W = W'" by simp
    with w(3) size_subtree [of "ts ! k" ts a] that(1) show ?thesis by simp
  qed
  have top: "a \<notin> set (nodes (ts ! k))" if "k < length ts" for k
  proof
    assume "a \<in> set (nodes (ts ! k))"
    from small [OF that this ANode.prems] show False by simp
  qed
  have up: "\<exists>y Wy. (\<exists>nd. s x = Some nd \<and> parent nd = Some y) \<and> y \<in> set (nodes (ts ! k))
      \<and> repr s Wy \<and> root_of Wy = y \<and> size W < size Wy"
    if "k < length ts" "x \<in> set (nodes (ts ! k))" "x \<noteq> root_of (ts ! k)"
      "repr s W" "root_of W = x" for k x W
  proof -
    from repr_parent [OF ru [OF that(1)] that(2,3)] obtain nd y Wy Wx where
      a: "s x = Some nd" "parent nd = Some y" "y \<in> set (nodes (ts ! k))"
        "repr s Wy" "root_of Wy = y" "repr s Wx" "root_of Wx = x" "size Wx < size Wy" by blast
    from repr_unique [OF that(4) a(6)] that(5) a(7) have "W = Wx" by simp
    with a show ?thesis by blast
  qed
  have at_root: "\<exists>nd. s x = Some nd \<and> parent nd = Some a \<and> unat (idx nd) = k"
    if "k < length ts" "x = root_of (ts ! k)" for k x
    using k2 that by blast
  have disj: "x \<in> set (nodes (ts ! j)) \<Longrightarrow> x \<in> set (nodes (ts ! k)) \<Longrightarrow> j < length ts
      \<Longrightarrow> k < length ts \<Longrightarrow> j \<noteq> k \<Longrightarrow> repr s W \<Longrightarrow> root_of W = x \<Longrightarrow> False" for x W j k
  proof (induction "size ?T - size W" arbitrary: x W rule: less_induct)
    case less
    note sm = small [OF less.prems(3,1,6,7)]
    show False
    proof (cases "x = root_of (ts ! j)")
      case True
      from at_root [OF less.prems(3) True] obtain nd where
        j: "s x = Some nd" "parent nd = Some a" "unat (idx nd) = j" by blast
      show False
      proof (cases "x = root_of (ts ! k)")
        case True
        from at_root [OF less.prems(4) True] j less.prems(5) show False by auto
      next
        case False
        from up [OF less.prems(4,2) False less.prems(6,7)] j
        have "a \<in> set (nodes (ts ! k))" by auto
        with top [OF less.prems(4)] show False by simp
      qed
    next
      case False
      from up [OF less.prems(3,1) False less.prems(6,7)] obtain y Wy nd where
        y: "s x = Some nd" "parent nd = Some y" "y \<in> set (nodes (ts ! j))"
          "repr s Wy" "root_of Wy = y" "size W < size Wy" by blast
      show False
      proof (cases "x = root_of (ts ! k)")
        case True
        from at_root [OF less.prems(4) True] y(1,2) have "y = a" by auto
        with y(3) top [OF less.prems(3)] show False by simp
      next
        case False
        from up [OF less.prems(4,2) False less.prems(6,7)] y(1,2)
        have yk: "y \<in> set (nodes (ts ! k))" by auto
        from y(6) sm have "size ?T - size Wy < size ?T - size W" by simp
        from less.hyps [OF this y(3) yk less.prems(3,4,5) y(4,5)] show False .
      qed
    qed
  qed
  have inter: "set (nodes (ts ! j)) \<inter> set (nodes (ts ! k)) = {}"
    if "j < k" "k < length ts" for j k
  proof (rule ccontr)
    assume "set (nodes (ts ! j)) \<inter> set (nodes (ts ! k)) \<noteq> {}"
    then obtain x where x: "x \<in> set (nodes (ts ! j))" "x \<in> set (nodes (ts ! k))" by auto
    from that have j: "j < length ts" "j \<noteq> k" by simp_all
    from repr_subshape [OF ru [OF j(1)] x(1)] obtain W where "repr s W" "root_of W = x"
      by blast
    from disj [OF x j(1) that(2) j(2) this] show False .
  qed
  have "distinct (concat (map nodes ts))"
  proof (rule distinct_concat_nth)
    fix k assume "k < length (map nodes ts)"
    then have k: "k < length ts" by simp
    then have "ts ! k \<in> set ts" by simp
    from ANode.IH [OF this ru [OF k]] k show "distinct (map nodes ts ! k)" by simp
  next
    fix j k assume "j < k" "k < length (map nodes ts)"
    with inter [of j k] show "set (map nodes ts ! j) \<inter> set (map nodes ts ! k) = {}" by simp
  qed
  moreover have "a \<notin> set (concat (map nodes ts))"
  proof
    assume "a \<in> set (concat (map nodes ts))"
    then obtain u where "u \<in> set ts" "a \<in> set (nodes u)" by auto
    then obtain k where "k < length ts" "a \<in> set (nodes (ts ! k))"
      by (auto simp: in_set_conv_nth)
    with top show False by blast
  qed
  ultimately show ?case by simp
qed

section \<open>Evaluating the model on concrete heaps\<close>

lemmas eval_mut =
  tree_add_child_def tree_alloc_def tree_children_grow_min_size_def link_last_def
  set_child_at_def tree_update_height.simps max_child_h_def child_at_def load_def
  tree_height_def tree_is_leaf_def tree_out_degree_def tree_child_def tree_add_subtree_def
  tree_set_child_def tree_set_subtree_def set_at_def tree_free_def tree_insert_child_def
  tree_insert_subtree_def link_at_def insert_shift.simps upt_rec word_le_nat_alt
  word_less_nat_alt unat_minus1_uint

lemmas eval_iter =
  tree_postorder_walk_def postorder_first.simps tree_postorder_walk_next_def
  tree_postorder_walk_prev_def postorder_prev_up.simps left_sibling_def right_sibling_def
  down_first.simps down_last.simps tree_iter_alloc_def tree_preorder_walk_def
  tree_preorder_walk_next_def tree_preorder_walk_prev_def preorder_up.simps

section \<open>Heights\<close>

text \<open>
  Claim C1 (height invariant: after a mutating operation the stored height of a node is
  1 + the maximum of its children's heights, and is 0 exactly for a leaf). The code does
  not do this: \<open>tree_update_height\<close> stores the maximum of the children's heights without
  adding one, so every stored height stays 0. A root at address 1 gets a child at address
  2, which gets a child at address 3: the root is not a leaf and its true height is 2, yet
  \<open>tree_height\<close> is 0 after each step.
\<close>

theorem height_stays_zero_after_add_child:
  "\<exists>s1 s2. tree_add_child True (Some 2) 1 20 (snd (tree_alloc (Some 1) (10::nat) (\<lambda>_. None)))
             = Some (Inr (Some 2, s1))
     \<and> tree_is_leaf s1 1 = Inr False \<and> tree_height s1 (Some 1) = Inr 0
     \<and> tree_add_child True (Some 3) 2 30 s1 = Some (Inr (Some 3, s2))
     \<and> tree_is_leaf s2 2 = Inr False \<and> tree_height s2 (Some 2) = Inr 0
     \<and> tree_height s2 (Some 1) = Inr 0"
  by (simp add: eval_mut)

section \<open>Attaching a subtree that has a parent\<close>

text \<open>
  Claim C2 (\<open>tree_add_subtree\<close> succeeds for a subtree that has a parent: it is detached
  first and then appended). The code returns at once when \<open>t->parent != NULL\<close>, with the
  value that means success, and changes nothing. Node 2 is the child of root 1, node 3 is
  another root: after \<open>tree_add_subtree(3, 2)\<close> reports success the heap is the same,
  node 3 has no child and node 2 is still the child of node 1.
\<close>

theorem add_subtree_skips_attached_subtree:
  "\<exists>s1 s2. tree_add_child True (Some 2) 1 20 (snd (tree_alloc (Some 1) (10::nat) (\<lambda>_. None)))
             = Some (Inr (Some 2, s1))
     \<and> tree_alloc (Some 3) 30 s1 = (Some 3, s2)
     \<and> tree_add_subtree True 3 (Some 2) s2 = Some (Inr (None, s2))
     \<and> tree_child s2 3 0 = Inr None \<and> tree_child s2 1 0 = Inr (Some 2)"
  by (simp add: eval_mut)

section \<open>The result of \<open>tree_insert_child\<close> and \<open>tree_set_child\<close>\<close>

text \<open>
  Claim C3 (\<open>tree_insert_child\<close> and \<open>tree_set_child\<close> return the new child when the
  allocations succeed). Both return \<open>NULL\<close> also on success: they return the result of the
  subtree operation, which is \<open>NULL\<close> when it succeeded. \<open>tree_set_child\<close> at position 0
  of a leaf, and \<open>tree_insert_child\<close> at position 1 of a node with one child, install the
  new node and return \<open>None\<close>.
\<close>

theorem set_child_and_insert_child_return_null:
  "\<exists>s1 s2. tree_set_child True (Some 2) 1 20 0 (snd (tree_alloc (Some 1) (10::nat) (\<lambda>_. None)))
             = Some (Inr (None, s1))
     \<and> tree_child s1 1 0 = Inr (Some 2)
     \<and> tree_insert_child True (Some 3) 1 30 1 s1 = Some (Inr (None, s2))
     \<and> tree_child s2 1 1 = Inr (Some 3)"
  by (simp add: eval_mut)

section \<open>Inserting at position 0\<close>

text \<open>
  Claim C4 (\<open>tree_insert_subtree\<close> installs \<open>t\<close> at position \<open>i\<close> for every
  \<open>0 \<le> i \<le> outDegree\<close>, also for \<open>i = 0\<close> and for a node without children). At
  \<open>i = 0\<close> the code reads \<open>n->children[UINT_MAX]\<close>: for a leaf 1 and a root 2, and for a
  node 1 with the child 2 and a root 3, the insertion at position 0 is a memory fault.
\<close>

theorem insert_subtree_at_zero_faults:
  "\<exists>s1 s2 s3. tree_alloc (Some 2) 20 (snd (tree_alloc (Some 1) (10::nat) (\<lambda>_. None))) = (Some 2, s1)
     \<and> tree_insert_subtree True 1 (Some 2) 0 s1 = Some (Inl MemFault)
     \<and> tree_add_child True (Some 2) 1 20 (snd (tree_alloc (Some 1) (10::nat) (\<lambda>_. None)))
         = Some (Inr (Some 2, s2))
     \<and> tree_alloc (Some 3) 30 s2 = (Some 3, s3)
     \<and> tree_insert_subtree True 1 (Some 3) 0 s3 = Some (Inl MemFault)"
  by (simp add: eval_mut)

section \<open>Freeing a node with children\<close>

text \<open>
  Claim C5 (\<open>tree_free\<close> releases the node and all its descendants). The code frees the
  child array and the node, not the children: after freeing root 1, whose child is node 2,
  node 1 is gone and node 2 is still allocated.
\<close>

theorem free_keeps_descendants:
  "\<exists>s1 s2. tree_add_child True (Some 2) 1 20 (snd (tree_alloc (Some 1) (10::nat) (\<lambda>_. None)))
             = Some (Inr (Some 2, s1))
     \<and> tree_free (Some 1) s1 = Inr s2 \<and> s2 1 = None \<and> s2 2 \<noteq> None
     \<and> tree_free None s1 = Inr s1"
  by (simp add: eval_mut)

section \<open>Retreating in the walks\<close>

text \<open>
  Claim C8 (a forward preorder or postorder walk yields every node once, and a retreat
  right after an advance returns the node visited before the advance). In two branches
  \<open>tree_postorder_walk_prev\<close> returns \<open>i->prev\<close> instead of \<open>i->current\<close>. Root 1 has
  the children 2 and 3; the postorder walk yields 2, 3, 1; the retreat after the third
  advance makes node 3 current and returns node 2. The preorder walk on the same tree
  yields 1, 2, 3 and its retreat returns the node it makes current.
\<close>

theorem postorder_retreat_returns_wrong_node:
  "\<exists>s1 s it0 it1 it2 it3 it4 jt1 jt2 jt3 jt4.
     tree_add_child True (Some 2) 1 20 (snd (tree_alloc (Some 1) (10::nat) (\<lambda>_. None)))
       = Some (Inr (Some 2, s1))
     \<and> tree_add_child True (Some 3) 1 30 s1 = Some (Inr (Some 3, s))
     \<and> tree_postorder_walk tree_iter_alloc (Some 1) s = Some (Inr it0)
     \<and> tree_postorder_walk_next it0 s = Some (Inr (Some 2, it1))
     \<and> tree_postorder_walk_next it1 s = Some (Inr (Some 3, it2))
     \<and> tree_postorder_walk_next it2 s = Some (Inr (Some 1, it3))
     \<and> tree_postorder_walk_prev it3 s = Some (Inr (Some 2, it4))
     \<and> it_current it4 = Some 3
     \<and> tree_preorder_walk_next (tree_preorder_walk tree_iter_alloc (Some 1)) s
         = Some (Inr (Some 1, jt1))
     \<and> tree_preorder_walk_next jt1 s = Some (Inr (Some 2, jt2))
     \<and> tree_preorder_walk_next jt2 s = Some (Inr (Some 3, jt3))
     \<and> tree_preorder_walk_prev jt3 s = Some (Inr (Some 2, jt4))
     \<and> it_current jt4 = Some 2"
  by (simp add: eval_mut eval_iter)

section \<open>Reflexive ancestry and the depth of the root\<close>

text \<open>
  Claim C10: \<open>tree_is_descendant_of\<close> and \<open>tree_is_ancestor_of\<close> are reflexive, so
  \<open>tree_depth(t, t)\<close> takes the branch for a node inside \<open>t\<close> and returns 0; a node that
  is not inside \<open>t\<close> gets 0 as well. None of this reads the heap, so it holds for every
  heap.
\<close>

theorem descendant_reflexive_depth_zero:
  "tree_is_descendant_of s (Some n) (Some n) = Some (Inr True)
     \<and> tree_is_ancestor_of s (Some n) (Some n) = Some (Inr True)
     \<and> tree_depth s (Some t) (Some t) = Some (Inr 0)
     \<and> (tree_is_ancestor_of s t' n' = Some (Inr False) \<longrightarrow> tree_depth s t' n' = Some (Inr 0))"
  by (simp add: tree_is_descendant_of.simps tree_is_ancestor_of_def tree_depth_def
        depth_loop.simps)

theorem descendant_reflexive_depth_zero_witness:
  "tree_is_ancestor_of (snd (tree_alloc (Some 2) 20 (snd (tree_alloc (Some 1) (10::nat) (\<lambda>_. None)))))
       (Some 1) (Some 2) = Some (Inr False)
     \<and> tree_depth (snd (tree_alloc (Some 2) 20 (snd (tree_alloc (Some 1) (10::nat) (\<lambda>_. None)))))
       (Some 1) (Some 2) = Some (Inr 0)
     \<and> tree_depth (snd (tree_alloc (Some 2) 20 (snd (tree_alloc (Some 1) (10::nat) (\<lambda>_. None)))))
       (Some 1) (Some 1) = Some (Inr 0)"
proof -
  let ?s = "snd (tree_alloc (Some 2) 20 (snd (tree_alloc (Some 1) (10::nat) (\<lambda>_. None))))"
  have h: "tree_is_ancestor_of ?s (Some 1) (Some 2) = Some (Inr False)"
    by (simp add: tree_is_ancestor_of_def tree_is_descendant_of.simps tree_alloc_def)
  from descendant_reflexive_depth_zero [of ?s 1 1 "Some 1" "Some 2"] h
  show ?thesis by simp
qed

section \<open>The index invariant\<close>

text \<open>
  Claim C6 (index invariant): after any sequence of public mutating operations that
  return, \<open>p.children[i].index == i\<close> for every node \<open>p\<close> and every valid position \<open>i\<close>;
  in particular, removing the child at position \<open>k\<close> of \<open>p\<close> moves the children
  \<open>k+1 .. d-1\<close> one cell down and decrements the stored index of each. The sequence starts
  in a well-formed heap (the empty heap is one). The allocator may return any block that
  is not allocated, also one that was freed before and to which nodes still point, and
  \<open>realloc\<close> may fail. An operation that does not return (a memory fault, as for an
  insertion at position 0, or a run that never ends) has no state after it.
\<close>

theorem index_invariant_maintained:
  assumes "wf_heap s0" and "mutation\<^sup>*\<^sup>* s0 s"
  shows "index_inv s
     \<and> (\<forall>p pn k c r s'. s p = Some pn \<longrightarrow> k < unat (outDegree pn) \<longrightarrow>
            child_at pn (of_nat k) = Inr (Some c) \<longrightarrow>
            tree_remove c s = Some (Inr (r, s')) \<longrightarrow>
            index_inv s' \<and> shifted_down s s' p k)"
proof -
  from mutations_wf [OF assms(2,1)] have w: "wf_heap s" .
  have "index_inv s' \<and> shifted_down s s' p k"
    if "s p = Some pn" "k < unat (outDegree pn)" "child_at pn (of_nat k) = Inr (Some c)"
      "tree_remove c s = Some (Inr (r, s'))"
    for p pn k c r s'
  proof -
    from child_at_nth [OF that(2) wf_heap_node(2,1) [OF w that(1)]] that(3)
    have "children pn ! k = Some c" by simp
    from tree_remove_shifts [OF w that(1,2) this that(4)] tree_remove_wf [OF w that(4)]
    show ?thesis by (simp add: wf_heap_index_inv)
  qed
  with wf_heap_index_inv [OF w] show ?thesis by blast
qed

text \<open>
  The theorem on a run in which a freed block is handed out again. Nodes 1, 2, 3 form a
  chain; \<open>tree_set_child(1, _, 0)\<close> frees node 2 and leaves node 3 live, pointing to the
  freed block; the next \<open>tree_alloc\<close> returns address 2 again, and the new node 2 gets
  children of its own, so that node 3 names as parent a node of which it is no child.
  \<open>tree_remove(3)\<close> then returns (it takes the last child of node 2 out of the count),
  and the invariant holds after it; removing the child at position 0 of node 1 moves the
  child at position 1 down.
\<close>

theorem index_invariant_maintained_witness:
  "wf_heap (\<lambda>_. None :: nat TreeNode option)
     \<and> (\<exists>s9 s s'. mutation\<^sup>*\<^sup>* (\<lambda>_. None :: nat TreeNode option) s9
           \<and> (\<exists>n. s9 3 = Some n \<and> parent n = Some 2)
           \<and> tree_child s9 2 0 = Inr (Some 7) \<and> tree_child s9 2 1 = Inr (Some 6)
           \<and> tree_remove 3 s9 = Some (Inr (3, s))
           \<and> mutation\<^sup>*\<^sup>* (\<lambda>_. None) s \<and> index_inv s
           \<and> tree_child s 2 0 = Inr (Some 7) \<and> tree_child s 2 1 = Inr None
           \<and> tree_child s 1 0 = Inr (Some 4) \<and> tree_child s 1 1 = Inr (Some 8)
           \<and> tree_remove 4 s = Some (Inr (4, s')) \<and> index_inv s' \<and> shifted_down s s' 1 0
           \<and> tree_child s' 1 0 = Inr (Some 8))"
proof -
  let ?e = "\<lambda>_. None :: nat TreeNode option"
  let ?s1 = "snd (tree_alloc (Some 1) 10 ?e)"
  have we: "wf_heap ?e" by (simp add: wf_heap_def)
  have ev: "\<exists>s2 s3 s4 s5 s6 s7 s8 s9 s10 s' pn.
      tree_add_child True (Some 2) 1 20 ?s1 = Some (Inr (Some 2, s2))
    \<and> s2 3 = None \<and> tree_add_child True (Some 3) 2 30 s2 = Some (Inr (Some 3, s3))
    \<and> s3 4 = None \<and> tree_set_child True (Some 4) 1 40 0 s3 = Some (Inr (None, s4))
    \<and> s4 8 = None \<and> tree_add_child True (Some 8) 1 80 s4 = Some (Inr (Some 8, s5))
    \<and> s5 2 = None \<and> s6 = snd (tree_alloc (Some 2) 21 s5)
    \<and> s6 5 = None \<and> tree_add_child True (Some 5) 2 50 s6 = Some (Inr (Some 5, s7))
    \<and> s7 6 = None \<and> tree_add_child True (Some 6) 2 60 s7 = Some (Inr (Some 6, s8))
    \<and> s8 7 = None \<and> tree_set_child True (Some 7) 2 70 0 s8 = Some (Inr (None, s9))
    \<and> (\<exists>n. s9 3 = Some n \<and> parent n = Some 2)
    \<and> tree_child s9 2 0 = Inr (Some 7) \<and> tree_child s9 2 1 = Inr (Some 6)
    \<and> tree_remove 3 s9 = Some (Inr (3, s10))
    \<and> tree_child s10 2 0 = Inr (Some 7) \<and> tree_child s10 2 1 = Inr None
    \<and> tree_child s10 1 0 = Inr (Some 4) \<and> tree_child s10 1 1 = Inr (Some 8)
    \<and> s10 1 = Some pn \<and> unat (outDegree pn) = 2 \<and> child_at pn (of_nat 0) = Inr (Some 4)
    \<and> tree_remove 4 s10 = Some (Inr (4, s'))
    \<and> tree_child s' 1 0 = Inr (Some 8)"
    by (simp add: eval_mut tree_remove_def tree_node_remove_child_def
          find_child.simps remove_shift.simps)
  then obtain s2 s3 s4 s5 s6 s7 s8 s9 s10 s' pn where
    a2: "tree_add_child True (Some 2) 1 20 ?s1 = Some (Inr (Some 2, s2))"
    and f3: "s2 3 = None" and a3: "tree_add_child True (Some 3) 2 30 s2 = Some (Inr (Some 3, s3))"
    and f4: "s3 4 = None" and a4: "tree_set_child True (Some 4) 1 40 0 s3 = Some (Inr (None, s4))"
    and f8: "s4 8 = None" and a8: "tree_add_child True (Some 8) 1 80 s4 = Some (Inr (Some 8, s5))"
    and f2: "s5 2 = None" and a6: "s6 = snd (tree_alloc (Some 2) 21 s5)"
    and f5: "s6 5 = None" and a5: "tree_add_child True (Some 5) 2 50 s6 = Some (Inr (Some 5, s7))"
    and f6: "s7 6 = None" and a7: "tree_add_child True (Some 6) 2 60 s7 = Some (Inr (Some 6, s8))"
    and f7: "s8 7 = None" and a9: "tree_set_child True (Some 7) 2 70 0 s8 = Some (Inr (None, s9))"
    and orph: "\<exists>n. s9 3 = Some n \<and> parent n = Some 2"
    and ch9: "tree_child s9 2 0 = Inr (Some 7)" "tree_child s9 2 1 = Inr (Some 6)"
    and r3: "tree_remove 3 s9 = Some (Inr (3, s10))"
    and ch: "tree_child s10 2 0 = Inr (Some 7)" "tree_child s10 2 1 = Inr None"
      "tree_child s10 1 0 = Inr (Some 4)" "tree_child s10 1 1 = Inr (Some 8)"
    and p: "s10 1 = Some pn" "unat (outDegree pn) = 2" "child_at pn (of_nat 0) = Inr (Some 4)"
    and r4: "tree_remove 4 s10 = Some (Inr (4, s'))"
    and ch': "tree_child s' 1 0 = Inr (Some 8)"
    by blast
  have m1: "mutation ?e ?s1" by (rule mutation.m_alloc) simp
  have m2: "mutation ?s1 s2"
    by (rule mutation.m_add_child [OF _ a2]) (simp add: malloc_ok_def tree_alloc_def)
  have m3: "mutation s2 s3"
    by (rule mutation.m_add_child [OF _ a3]) (simp add: malloc_ok_def f3)
  have m4: "mutation s3 s4"
    by (rule mutation.m_set_child [OF _ a4]) (simp add: malloc_ok_def f4)
  have m5: "mutation s4 s5"
    by (rule mutation.m_add_child [OF _ a8]) (simp add: malloc_ok_def f8)
  have m6: "mutation s5 s6" unfolding a6 by (rule mutation.m_alloc) (rule f2)
  have m7: "mutation s6 s7"
    by (rule mutation.m_add_child [OF _ a5]) (simp add: malloc_ok_def f5)
  have m8: "mutation s7 s8"
    by (rule mutation.m_add_child [OF _ a7]) (simp add: malloc_ok_def f6)
  have m9: "mutation s8 s9"
    by (rule mutation.m_set_child [OF _ a9]) (simp add: malloc_ok_def f7)
  have m10: "mutation s9 s10" by (rule mutation.m_remove [OF r3])
  have "mutation\<^sup>*\<^sup>* ?e ?s1" using m1 by auto
  then have "mutation\<^sup>*\<^sup>* ?e s2" using m2 by auto
  then have "mutation\<^sup>*\<^sup>* ?e s3" using m3 by auto
  then have "mutation\<^sup>*\<^sup>* ?e s4" using m4 by auto
  then have "mutation\<^sup>*\<^sup>* ?e s5" using m5 by auto
  then have "mutation\<^sup>*\<^sup>* ?e s6" using m6 by auto
  then have "mutation\<^sup>*\<^sup>* ?e s7" using m7 by auto
  then have "mutation\<^sup>*\<^sup>* ?e s8" using m8 by auto
  then have ms9: "mutation\<^sup>*\<^sup>* ?e s9" using m9 by auto
  then have ms: "mutation\<^sup>*\<^sup>* ?e s10" using m10 by auto
  note main = index_invariant_maintained [OF we ms]
  from main have i2: "index_inv s10" by (rule conjunct1)
  from p(2) have k: "0 < unat (outDegree pn)" by simp
  from main p(1) k p(3) r4 have "index_inv s' \<and> shifted_down s10 s' 1 0" by blast
  then have i3: "index_inv s'" "shifted_down s10 s' 1 0" by simp_all
  have "mutation\<^sup>*\<^sup>* ?e s9
           \<and> (\<exists>n. s9 3 = Some n \<and> parent n = Some 2)
           \<and> tree_child s9 2 0 = Inr (Some 7) \<and> tree_child s9 2 1 = Inr (Some 6)
           \<and> tree_remove 3 s9 = Some (Inr (3, s10))
           \<and> mutation\<^sup>*\<^sup>* ?e s10 \<and> index_inv s10
           \<and> tree_child s10 2 0 = Inr (Some 7) \<and> tree_child s10 2 1 = Inr None
           \<and> tree_child s10 1 0 = Inr (Some 4) \<and> tree_child s10 1 1 = Inr (Some 8)
           \<and> tree_remove 4 s10 = Some (Inr (4, s')) \<and> index_inv s' \<and> shifted_down s10 s' 1 0
           \<and> tree_child s' 1 0 = Inr (Some 8)"
    using ms9 orph ch9 r3 ms i2 ch r4 i3 ch' by simp
  then have "\<exists>s9 s s'. mutation\<^sup>*\<^sup>* ?e s9
           \<and> (\<exists>n. s9 3 = Some n \<and> parent n = Some 2)
           \<and> tree_child s9 2 0 = Inr (Some 7) \<and> tree_child s9 2 1 = Inr (Some 6)
           \<and> tree_remove 3 s9 = Some (Inr (3, s))
           \<and> mutation\<^sup>*\<^sup>* ?e s \<and> index_inv s
           \<and> tree_child s 2 0 = Inr (Some 7) \<and> tree_child s 2 1 = Inr None
           \<and> tree_child s 1 0 = Inr (Some 4) \<and> tree_child s 1 1 = Inr (Some 8)
           \<and> tree_remove 4 s = Some (Inr (4, s')) \<and> index_inv s' \<and> shifted_down s s' 1 0
           \<and> tree_child s' 1 0 = Inr (Some 8)"
    by (intro exI)
  with we show ?thesis by (rule conjI)
qed

section \<open>Attaching and detaching a subtree\<close>

lemma update_height_self_loop:
  assumes "tree_update_height n s = Some r"
  shows "\<not> (\<exists>a nd. n = Some a \<and> s a = Some nd \<and> parent nd = Some a
              \<and> children nd = [Some a] \<and> outDegree nd = 1 \<and> alloced nd = 1)"
proof -
  define P :: "addr option \<Rightarrow> 'a heap \<Rightarrow> error + 'a heap \<Rightarrow> bool"
    where "P = (\<lambda>n s r. \<not> (\<exists>a nd. n = Some a \<and> s a = Some nd \<and> parent nd = Some a
              \<and> children nd = [Some a] \<and> outDegree nd = 1 \<and> alloced nd = 1))"
  have step: "P n s r"
    if ih: "\<And>n s y. uh n s = Some y \<Longrightarrow> P n s y"
      and eq: "(case n of None \<Rightarrow> Some (Inr s)
        | Some a \<Rightarrow> (case s a of None \<Rightarrow> Some (Inl MemFault)
            | Some nd \<Rightarrow> (case max_child_h s nd of Inl e \<Rightarrow> Some (Inl e)
                | Inr hv \<Rightarrow> uh (parent nd) (s(a \<mapsto> nd\<lparr>hgt := hv\<rparr>))))) = Some r"
    for uh :: "addr option \<Rightarrow> 'a heap \<Rightarrow> (error + 'a heap) option" and n s r
    unfolding P_def
  proof
    assume "\<exists>a nd. n = Some a \<and> s a = Some nd \<and> parent nd = Some a
              \<and> children nd = [Some a] \<and> outDegree nd = 1 \<and> alloced nd = 1"
    then obtain a nd where x: "n = Some a" "s a = Some nd" "parent nd = Some a"
      "children nd = [Some a]" "outDegree nd = 1" "alloced nd = 1" by blast
    from x have m: "max_child_h s nd = Inr (hgt nd)"
      by (simp add: max_child_h_def child_at_def load_def)
    from eq x m have "uh (Some a) (s(a \<mapsto> nd\<lparr>hgt := hgt nd\<rparr>)) = Some r" by simp
    from ih [OF this] x show False by (simp add: P_def)
  qed
  have "P n s r"
    by (rule tree_update_height.raw_induct [where P = P, OF step assms])
  then show ?thesis by (simp add: P_def)
qed

text \<open>
  Claim C7 (attach/detach round trip: for every node \<open>p\<close> and every rootless subtree \<open>t\<close>,
  \<open>tree_add_subtree(p, t)\<close> followed by \<open>tree_remove(t)\<close> restores \<open>t\<close>). The claim does
  not hold for every \<open>p\<close>: nothing in the code keeps \<open>p\<close> out of the subtree of \<open>t\<close>. For
  \<open>p = t\<close> the node becomes its own parent, and the loop of \<open>tree_update_height\<close>, which
  follows the parent pointers until \<open>NULL\<close>, never ends.
\<close>

theorem attach_under_itself_never_returns:
  "tree_add_subtree True 1 (Some 1) (snd (tree_alloc (Some 1) (10::nat) (\<lambda>_. None))) = None"
proof -
  let ?s2 = "(\<lambda>_. None)(1 \<mapsto> \<lparr>parent = Some 1, children = [Some 1], outDegree = 1,
                 data = 10::nat, alloced = 1, idx = 0, hgt = 0\<rparr>)"
  have e: "tree_add_subtree True 1 (Some 1) (snd (tree_alloc (Some 1) (10::nat) (\<lambda>_. None)))
      = (case tree_update_height (Some 1) ?s2 of None \<Rightarrow> None
         | Some (Inl e) \<Rightarrow> Some (Inl e)
         | Some (Inr s3) \<Rightarrow> Some (Inr (None, s3)))"
    by (simp add: tree_add_subtree_def tree_remove_def tree_alloc_def
          tree_children_grow_min_size_def link_last_def set_child_at_def word_le_nat_alt)
  have "tree_update_height (Some 1) ?s2 = None"
  proof (cases "tree_update_height (Some 1) ?s2")
    case (Some r)
    from update_height_self_loop [OF Some] show ?thesis by simp
  qed simp
  with e show ?thesis by simp
qed

text \<open>
  Claim C7, amended: in a well-formed heap, let \<open>p\<close> be a live node with fewer than
  \<open>UINT_MAX\<close> children and \<open>t\<close> a live node without parent such that \<open>p\<close> is not a
  descendant of \<open>t\<close> (\<open>tree_is_descendant_of(p, t)\<close> returns false). Then
  \<open>tree_add_subtree(p, t)\<close> returns; it returns \<open>NULL\<close> with \<open>t\<close> attached under \<open>p\<close>
  when the child array has room or can grow, and \<open>t\<close> with the heap unchanged otherwise.
  The following \<open>tree_remove(t)\<close> returns \<open>t\<close>, and afterwards every node of the subtree
  of \<open>t\<close> (every node of which \<open>t\<close> is an ancestor, \<open>t\<close> included) is exactly as it was
  before the attach: parent, index, child array, payload and stored height.
\<close>

theorem attach_detach_round_trip:
  assumes "wf_heap s" and "s p = Some pn" and "s t = Some tn" and "parent tn = None"
    and "tree_is_descendant_of s (Some p) (Some t) = Some (Inr False)"
    and "outDegree pn + 1 \<noteq> 0"
  shows "\<exists>r s1 s2. tree_add_subtree rk p (Some t) s = Some (Inr (r, s1))
      \<and> (if rk \<or> outDegree pn + 1 \<le> alloced pn
         then r = None \<and> (\<exists>tn1. s1 t = Some tn1 \<and> parent tn1 = Some p)
         else r = Some t \<and> s1 = s)
      \<and> tree_remove t s1 = Some (Inr (t, s2))
      \<and> (\<forall>a. tree_is_descendant_of s (Some a) (Some t) = Some (Inr True) \<longrightarrow> s2 a = s a)"
proof (cases "rk \<or> outDegree pn + 1 \<le> alloced pn")
  case True
  from descendant_false_path [OF assms(5)] obtain as where pa: "path s (Some p) as"
    and ta: "t \<notin> set as" by blast
  from round_trip_path [OF assms(1-4) pa ta assms(6) True] obtain s1 s2 tn1 where
    x: "tree_add_subtree rk p (Some t) s = Some (Inr (None, s1))"
      "s1 t = Some tn1" "parent tn1 = Some p" "tree_remove t s1 = Some (Inr (t, s2))"
    and f: "\<forall>a. a \<notin> set as \<longrightarrow> s2 a = s a" by blast
  have "s2 a = s a" if "tree_is_descendant_of s (Some a) (Some t) = Some (Inr True)" for a
    using descendant_true_path [OF that pa] ta f by blast
  with x True show ?thesis by auto
next
  case False
  from round_trip_no_room [OF assms(2-4) False] False show ?thesis by auto
qed

theorem attach_detach_round_trip_witness:
  "\<exists>s s1 s2. wf_heap s
     \<and> tree_add_child True (Some 3) 2 30
         (snd (tree_alloc (Some 2) 20 (snd (tree_alloc (Some 1) (10::nat) (\<lambda>_. None)))))
       = Some (Inr (Some 3, s))
     \<and> tree_is_descendant_of s (Some 1) (Some 2) = Some (Inr False)
     \<and> tree_is_descendant_of s (Some 3) (Some 2) = Some (Inr True)
     \<and> tree_add_subtree True 1 (Some 2) s = Some (Inr (None, s1))
     \<and> (\<exists>tn1. s1 2 = Some tn1 \<and> parent tn1 = Some 1)
     \<and> tree_remove 2 s1 = Some (Inr (2, s2))
     \<and> s2 2 = s 2 \<and> s2 3 = s 3 \<and> s 2 \<noteq> None \<and> s 3 \<noteq> None"
proof -
  let ?e = "\<lambda>_. None :: nat TreeNode option"
  let ?sa = "snd (tree_alloc (Some 1) 10 ?e)"
  let ?sb = "snd (tree_alloc (Some 2) 20 ?sa)"
  have ev: "\<exists>s pn tn. tree_add_child True (Some 3) 2 30 ?sb = Some (Inr (Some 3, s))
      \<and> s 1 = Some pn \<and> outDegree pn + 1 \<noteq> 0 \<and> s 2 = Some tn \<and> parent tn = None
      \<and> s 3 \<noteq> None
      \<and> tree_is_descendant_of s (Some 1) (Some 2) = Some (Inr False)
      \<and> tree_is_descendant_of s (Some 3) (Some 2) = Some (Inr True)
      \<and> tree_is_descendant_of s (Some 2) (Some 2) = Some (Inr True)"
    by (simp add: eval_mut tree_is_descendant_of.simps)
  then obtain s pn tn where
    a: "tree_add_child True (Some 3) 2 30 ?sb = Some (Inr (Some 3, s))"
    and sp: "s 1 = Some pn" and od: "outDegree pn + 1 \<noteq> 0" and st: "s 2 = Some tn"
    and tr: "parent tn = None" and s3: "s 3 \<noteq> None"
    and d1: "tree_is_descendant_of s (Some 1) (Some 2) = Some (Inr False)"
    and d3: "tree_is_descendant_of s (Some 3) (Some 2) = Some (Inr True)"
    and d2: "tree_is_descendant_of s (Some 2) (Some 2) = Some (Inr True)"
    by blast
  have m0: "mutation ?e ?sa" by (rule mutation.m_alloc) simp
  have m1: "mutation ?sa ?sb"
    by (rule mutation.m_alloc) (simp add: tree_alloc_def)
  have m2: "mutation ?sb s"
    by (rule mutation.m_add_child [OF _ a]) (simp add: malloc_ok_def tree_alloc_def)
  from m0 m1 m2 have ms: "mutation\<^sup>*\<^sup>* ?e s" by auto
  have w: "wf_heap s" by (rule mutations_wf [OF ms]) (simp add: wf_heap_def)
  from attach_detach_round_trip [OF w sp st tr d1 od, of True] obtain r s1 s2 where
    x: "tree_add_subtree True 1 (Some 2) s = Some (Inr (r, s1))" "r = None"
      "\<exists>tn1. s1 2 = Some tn1 \<and> parent tn1 = Some 1"
      "tree_remove 2 s1 = Some (Inr (2, s2))"
    and f: "\<forall>a. tree_is_descendant_of s (Some a) (Some 2) = Some (Inr True) \<longrightarrow> s2 a = s a"
    by auto
  from f d2 d3 have "s2 2 = s 2" "s2 3 = s 3" by auto
  with w a d1 d3 x st s3 show ?thesis by auto
qed

section \<open>The traversal of the leaves\<close>

text \<open>
  Claim C9 (leaves-only traversal): for a tree of shape \<open>T\<close> in the heap,
  \<open>tree_iter_leaves_first\<close> followed by \<open>tree_iter_leaves_next\<close> until
  \<open>tree_iter_has_next\<close> is false returns, and the nodes it yields are exactly the nodes of
  \<open>T\<close> that satisfy \<open>tree_is_leaf\<close>, each once, in the order in which they appear from left
  to right (the order of the preorder list of the nodes, which visits siblings by
  increasing position). So a tree with \<open>L\<close> leaves yields \<open>L\<close> nodes. The empty tree
  (\<open>NULL\<close>) yields nothing.
\<close>

theorem leaves_traversal_yields_leaves_in_order:
  assumes "repr s T"
  shows "\<exists>it. tree_iter_leaves_first it0 (Some (root_of T)) s = Some (Inr it)
     \<and> leaves_drain it s
         = Some (Inr (map Some (filter (\<lambda>a. tree_is_leaf s a = Inr True) (nodes T))))
     \<and> distinct (filter (\<lambda>a. tree_is_leaf s a = Inr True) (nodes T))
     \<and> filter (\<lambda>a. tree_is_leaf s a = Inr True) (nodes T) = fringe T
     \<and> (\<exists>it'. tree_iter_leaves_first it0 None s = Some (Inr it')
           \<and> leaves_drain it' s = Some (Inr []))"
proof -
  let ?it = "it0\<lparr>it_t := Some (root_of T), it_next := Some (hd (fringe T))\<rparr>"
  note dn = repr_distinct [OF assms]
  from leaves_first_loop_fringe [OF assms]
  have f: "tree_iter_leaves_first it0 (Some (root_of T)) s = Some (Inr ?it)"
    by (simp add: tree_iter_leaves_first_def)
  from dn have "root_of T \<notin> set (tl (nodes T))" by (cases T) simp
  from linked_fringe [OF assms this]
  have "linked (\<lambda>x. leaves_succ s (Some (root_of T)) (Some x)) (fringe T) (Some (Inr None))"
    by (simp add: leaves_succ_root)
  from leaves_drain_linked [OF this fringe_nonempty, of ?it]
  have d: "leaves_drain ?it s = Some (Inr (map Some (fringe T)))" by simp
  note e = fringe_is_leaves [OF assms]
  from dn have "distinct (filter (\<lambda>a. tree_is_leaf s a = Inr True) (nodes T))"
    by (rule distinct_filter)
  moreover have "leaves_first_loop s None None = Some (Inr None)"
    by (subst leaves_first_loop.simps) simp
  then have "\<exists>it'. tree_iter_leaves_first it0 None s = Some (Inr it')
           \<and> leaves_drain it' s = Some (Inr [])"
    by (subst leaves_drain.simps) (simp add: tree_iter_leaves_first_def tree_iter_has_next_def)
  ultimately show ?thesis using f d e by simp
qed

theorem leaves_traversal_yields_leaves_in_order_witness:
  "\<exists>s0 s1 s it.
       tree_add_child True (Some 2) 1 20 (snd (tree_alloc (Some 1) (10::nat) (\<lambda>_. None)))
         = Some (Inr (Some 2, s0))
     \<and> tree_add_child True (Some 3) 1 30 s0 = Some (Inr (Some 3, s1))
     \<and> tree_add_child True (Some 4) 2 40 s1 = Some (Inr (Some 4, s))
     \<and> repr s (ANode 1 [ANode 2 [ANode 4 []], ANode 3 []])
     \<and> tree_iter_leaves_first tree_iter_alloc (Some 1) s = Some (Inr it)
     \<and> leaves_drain it s = Some (Inr [Some 4, Some 3])
     \<and> tree_is_leaf s 1 = Inr False \<and> tree_is_leaf s 2 = Inr False
     \<and> tree_is_leaf s 3 = Inr True \<and> tree_is_leaf s 4 = Inr True"
proof -
  let ?T = "ANode 1 [ANode 2 [ANode 4 []], ANode 3 []]"
  have ev: "\<exists>s0 s1 s.
       tree_add_child True (Some 2) 1 20 (snd (tree_alloc (Some 1) (10::nat) (\<lambda>_. None)))
         = Some (Inr (Some 2, s0))
     \<and> tree_add_child True (Some 3) 1 30 s0 = Some (Inr (Some 3, s1))
     \<and> tree_add_child True (Some 4) 2 40 s1 = Some (Inr (Some 4, s))
     \<and> repr s ?T
     \<and> tree_is_leaf s 1 = Inr False \<and> tree_is_leaf s 2 = Inr False
     \<and> tree_is_leaf s 3 = Inr True \<and> tree_is_leaf s 4 = Inr True"
    by (simp add: eval_mut All_less_Suc)
  then obtain s0 s1 s where
    a: "tree_add_child True (Some 2) 1 20 (snd (tree_alloc (Some 1) (10::nat) (\<lambda>_. None)))
         = Some (Inr (Some 2, s0))"
      "tree_add_child True (Some 3) 1 30 s0 = Some (Inr (Some 3, s1))"
      "tree_add_child True (Some 4) 2 40 s1 = Some (Inr (Some 4, s))"
    and r: "repr s ?T"
    and l: "tree_is_leaf s 1 = Inr False" "tree_is_leaf s 2 = Inr False"
      "tree_is_leaf s 3 = Inr True" "tree_is_leaf s 4 = Inr True"
    by blast
  from leaves_traversal_yields_leaves_in_order [OF r, of tree_iter_alloc] obtain it where
    x: "tree_iter_leaves_first tree_iter_alloc (Some (root_of ?T)) s = Some (Inr it)"
      "leaves_drain it s
         = Some (Inr (map Some (filter (\<lambda>a. tree_is_leaf s a = Inr True) (nodes ?T))))"
    by blast
  from x l have "tree_iter_leaves_first tree_iter_alloc (Some 1) s = Some (Inr it)"
    "leaves_drain it s = Some (Inr [Some 4, Some 3])" by simp_all
  with a r l show ?thesis by blast
qed

end
